theory Spec2Isabelle
  imports Complex_Main "HOL-Library.Monad_Syntax" "HOL-Library.Extended_Nat"
begin

section \<open>Numbers, vectors and quadrics\<close>

text \<open>
  The engine of \<^verbatim>\<open>simplification-worker.js\<close> computes with JavaScript numbers. The
  coordinates, and the normals, areas, quadrics and costs computed from them, are
  idealised as \<^typ>\<open>real\<close> (no rounding, no overflow, no NaN); the only non-finite value
  the code writes itself is \<^verbatim>\<open>Infinity\<close>, the sentinel of \<^verbatim>\<open>edge.cost\<close> and the start
  value of \<^verbatim>\<open>minCost\<close>, so a cost is a finite number or \<open>Infinity\<close>. The target face
  count, an integer that decides when the loop stops, is computed as the code computes
  it, each operation rounded to binary64, and the decimal literal \<^verbatim>\<open>0.0001\<close> is the
  binary64 number it denotes. A thrown \<^verbatim>\<open>TypeError\<close> (property access on \<^verbatim>\<open>undefined\<close>
  or \<^verbatim>\<open>null\<close>) is the value \<open>None\<close> of an option type.
\<close>

subsection \<open>Rounding to binary64\<close>

text \<open>
  For \<open>x > 0\<close>, \<open>binade x\<close> is the exponent \<open>e\<close> with \<open>2\<^sup>e \<le> x < 2\<^sup>e\<^sup>+\<^sup>1\<close>, found by halving
  or doubling. A binary64 number has 53 significant bits, so near \<open>x\<close> the representable
  numbers are the multiples of \<open>2\<^sup>e\<^sup>-\<^sup>5\<^sup>2\<close> (of \<open>2\<^sup>-\<^sup>1\<^sup>0\<^sup>7\<^sup>4\<close> below \<open>2\<^sup>-\<^sup>1\<^sup>0\<^sup>2\<^sup>2\<close>, the subnormal
  range); \<open>round64 x\<close> is the nearest of them, the one with the even multiplier when two
  are equally near (IEEE 754 round to nearest, ties to even). A result of \<open>2\<^sup>1\<^sup>0\<^sup>2\<^sup>4\<close> or
  more stands for an overflow, which the operation turns into \<^verbatim>\<open>Infinity\<close>.
\<close>

function expo_hi :: "real \<Rightarrow> nat" where
  "expo_hi x = (if x < 2 then 0 else Suc (expo_hi (x / 2)))"
  by pat_completeness auto
termination
proof (relation "measure (\<lambda>x. nat \<lceil>x\<rceil>)")
  show "wf (measure (\<lambda>x. nat \<lceil>x\<rceil>))" by simp
next
  fix x :: real assume "\<not> x < 2"
  then have "\<lceil>x / 2\<rceil> < \<lceil>x\<rceil>" by linarith
  moreover have "0 < \<lceil>x\<rceil>" using \<open>\<not> x < 2\<close> by linarith
  ultimately show "(x / 2, x) \<in> measure (\<lambda>x. nat \<lceil>x\<rceil>)" by simp
qed

function expo_lo :: "real \<Rightarrow> nat" where
  "expo_lo x = (if x \<le> 0 \<or> 1 \<le> x then 0 else Suc (expo_lo (2 * x)))"
  by pat_completeness auto
termination
proof (relation "measure (\<lambda>x. nat \<lceil>1 / x\<rceil>)")
  show "wf (measure (\<lambda>x. nat \<lceil>1 / x\<rceil>))" by simp
next
  fix x :: real assume "\<not> (x \<le> 0 \<or> 1 \<le> x)"
  then have x: "0 < x" "x < 1" by simp_all
  define y where "y = 1 / x"
  have y: "1 < y" using x by (simp add: y_def)
  then have "2 \<le> \<lceil>y\<rceil>" by linarith
  then have n2: "(2::real) \<le> of_int \<lceil>y\<rceil>" by (metis of_int_le_iff of_int_numeral)
  have "y \<le> of_int \<lceil>y\<rceil>" by simp
  with n2 have "y / 2 \<le> of_int \<lceil>y\<rceil> - 1" by linarith
  then have "y / 2 \<le> of_int (\<lceil>y\<rceil> - 1)" by simp
  then have "\<lceil>y / 2\<rceil> \<le> \<lceil>y\<rceil> - 1" by (simp only: ceiling_le_iff)
  then have "\<lceil>y / 2\<rceil> < \<lceil>y\<rceil>" by simp
  moreover have "1 / (2 * x) = y / 2" by (simp add: y_def)
  moreover have "0 < \<lceil>y\<rceil>" using y by linarith
  ultimately show "(2 * x, x) \<in> measure (\<lambda>x. nat \<lceil>1 / x\<rceil>)"
    by (simp add: y_def mult.commute)
qed

declare expo_hi.simps [simp del] expo_lo.simps [simp del]

definition binade :: "real \<Rightarrow> int" where
  "binade x = (if 1 \<le> x then int (expo_hi x) else - int (expo_lo x))"

definition pow2 :: "int \<Rightarrow> real" where
  "pow2 e = (if 0 \<le> e then 2 ^ nat e else 1 / 2 ^ nat (- e))"

definition roundTiesToEven :: "real \<Rightarrow> int" where
  "roundTiesToEven q =
     (let n = \<lfloor>q\<rfloor>; f = q - of_int n in
      if f < 1 / 2 then n else if 1 / 2 < f then n + 1 else if even n then n else n + 1)"

definition round64 :: "real \<Rightarrow> real" where
  "round64 x =
     (if x = 0 then 0
      else let u = pow2 (max (binade \<bar>x\<bar>) (- 1022) - 52)
           in of_int (roundTiesToEven (x / u)) * u)"

subsection \<open>Vector3 and Quadric\<close>

datatype Vector3 = Vector3 (vx: real) (vy: real) (vz: real)

definition subVectors :: "Vector3 \<Rightarrow> Vector3 \<Rightarrow> Vector3" where
  "subVectors a b = Vector3 (vx a - vx b) (vy a - vy b) (vz a - vz b)"

definition addVectors :: "Vector3 \<Rightarrow> Vector3 \<Rightarrow> Vector3" where
  "addVectors a b = Vector3 (vx a + vx b) (vy a + vy b) (vz a + vz b)"

definition v_multiplyScalar :: "Vector3 \<Rightarrow> real \<Rightarrow> Vector3" where
  "v_multiplyScalar v s = Vector3 (vx v * s) (vy v * s) (vz v * s)"

definition crossVectors :: "Vector3 \<Rightarrow> Vector3 \<Rightarrow> Vector3" where
  "crossVectors a b =
     Vector3 (vy a * vz b - vz a * vy b) (vz a * vx b - vx a * vz b) (vx a * vy b - vy a * vx b)"

definition dot :: "Vector3 \<Rightarrow> Vector3 \<Rightarrow> real" where
  "dot a v = vx a * vx v + vy a * vy v + vz a * vz v"

definition vlength :: "Vector3 \<Rightarrow> real" where
  "vlength v = sqrt (vx v * vx v + vy v * vy v + vz v * vz v)"

definition normalize_v :: "Vector3 \<Rightarrow> Vector3" where
  "normalize_v v = (let len = vlength v in if len > 0 then v_multiplyScalar v (1 / len) else v)"

record Quadric =
  a11 :: real
  a12 :: real
  a13 :: real
  a14 :: real
  a22 :: real
  a23 :: real
  a24 :: real
  a33 :: real
  a34 :: real
  a44 :: real

definition newQuadric :: Quadric where
  "newQuadric = \<lparr>a11 = 0, a12 = 0, a13 = 0, a14 = 0, a22 = 0, a23 = 0, a24 = 0,
                  a33 = 0, a34 = 0, a44 = 0\<rparr>"

definition fromPlane :: "real \<Rightarrow> real \<Rightarrow> real \<Rightarrow> real \<Rightarrow> Quadric" where
  "fromPlane a b c d =
     \<lparr>a11 = a * a, a12 = a * b, a13 = a * c, a14 = a * d, a22 = b * b, a23 = b * c, a24 = b * d,
      a33 = c * c, a34 = c * d, a44 = d * d\<rparr>"

definition q_add :: "Quadric \<Rightarrow> Quadric \<Rightarrow> Quadric" where
  "q_add p q =
     \<lparr>a11 = a11 p + a11 q, a12 = a12 p + a12 q, a13 = a13 p + a13 q, a14 = a14 p + a14 q,
      a22 = a22 p + a22 q, a23 = a23 p + a23 q, a24 = a24 p + a24 q,
      a33 = a33 p + a33 q, a34 = a34 p + a34 q, a44 = a44 p + a44 q\<rparr>"

definition q_multiplyScalar :: "Quadric \<Rightarrow> real \<Rightarrow> Quadric" where
  "q_multiplyScalar q s =
     \<lparr>a11 = a11 q * s, a12 = a12 q * s, a13 = a13 q * s, a14 = a14 q * s,
      a22 = a22 q * s, a23 = a23 q * s, a24 = a24 q * s,
      a33 = a33 q * s, a34 = a34 q * s, a44 = a44 q * s\<rparr>"

definition evaluate :: "Quadric \<Rightarrow> real \<Rightarrow> real \<Rightarrow> real \<Rightarrow> real" where
  "evaluate q x y z =
     a11 q * x * x + 2 * a12 q * x * y + 2 * a13 q * x * z + 2 * a14 q * x
       + a22 q * y * y + 2 * a23 q * y * z + 2 * a24 q * y
       + a33 q * z * z + 2 * a34 q * z
       + a44 q"

datatype cost = Fin real | Infinity

fun cost_less :: "cost \<Rightarrow> cost \<Rightarrow> bool" where
  "cost_less (Fin a) (Fin b) = (a < b)"
| "cost_less (Fin a) Infinity = True"
| "cost_less Infinity c = False"

fun cost_times :: "cost \<Rightarrow> real \<Rightarrow> cost" where
  "cost_times (Fin a) k = Fin (a * k)"
| "cost_times Infinity k = Infinity"

section \<open>The mesh containers\<close>

text \<open>
  Vertices, faces and edges are the objects of the three arrays of \<^verbatim>\<open>MeshSimplifier\<close>.
  An edge object is shared between \<^verbatim>\<open>this.edges\<close> and the \<^verbatim>\<open>edges\<close> lists of its two
  endpoint vertices; it is pushed on \<^verbatim>\<open>this.edges\<close> once, when it is created, and never
  removed, so a reference to it is its index in \<^verbatim>\<open>this.edges\<close>. A face always has
  exactly three vertex slots (it is created from a three-element array literal and
  only updated slot by slot).
\<close>

record vertex =
  position :: Vector3
  v_faces :: "nat list"
  v_edges :: "nat list"
  quadric :: "Quadric option"
  v_deleted :: bool

record face =
  f_vertices :: "nat \<times> nat \<times> nat"
  f_deleted :: bool
  normal :: "Vector3 option"
  area :: real

record edge =
  e_v0 :: nat
  e_v1 :: nat
  e_faces :: "nat list"
  cost :: cost
  target :: "Vector3 option"
  e_deleted :: bool

record mesh =
  vertices :: "vertex list"
  faces :: "face list"
  edges :: "edge list"

definition nth_opt :: "'a list \<Rightarrow> nat \<Rightarrow> 'a option" where
  "nth_opt xs i = (if i < length xs then Some (xs ! i) else None)"

definition upd_at :: "'a list \<Rightarrow> nat \<Rightarrow> ('a \<Rightarrow> 'a option) \<Rightarrow> 'a list option" where
  "upd_at xs i f =
     (if i < length xs then (case f (xs ! i) of None \<Rightarrow> None | Some y \<Rightarrow> Some (xs[i := y]))
      else None)"

fun foldM :: "('a \<Rightarrow> 's \<Rightarrow> 's option) \<Rightarrow> 'a list \<Rightarrow> 's \<Rightarrow> 's option" where
  "foldM f [] s = Some s"
| "foldM f (x # xs) s = (case f x s of None \<Rightarrow> None | Some s' \<Rightarrow> foldM f xs s')"

definition countActiveFaces :: "mesh \<Rightarrow> nat" where
  "countActiveFaces st = length (filter (\<lambda>f. \<not> f_deleted f) (faces st))"

section \<open>extractMeshData\<close>

text \<open>
  \<^verbatim>\<open>x.toFixed(6)\<close> prints an optional minus sign (when \<open>x < 0\<close>) and the integer \<open>n\<close>
  for which \<open>n / 10\<^sup>6\<close> is nearest to \<open>\<bar>x\<bar>\<close> (the larger one of two), with the decimal
  point six digits from the right; from \<open>10\<^sup>2\<^sup>1\<close> on it prints the number itself. The
  printed string and the pair of sign and \<open>n\<close> determine each other, so the key keeps
  the pair; the three parts of a vertex key are joined by commas, which no part
  contains, so the key of a vertex is the triple.
\<close>

datatype fixed = Fixed bool int | Large real

definition toFixed6 :: "real \<Rightarrow> fixed" where
  "toFixed6 x =
     (if \<bar>x\<bar> \<ge> 10 ^ 21 then Large x else Fixed (x < 0) \<lfloor>\<bar>x\<bar> * 10 ^ 6 + 1 / 2\<rfloor>)"

type_synonym vkey = "fixed \<times> fixed \<times> fixed"

definition newVertex :: "real \<Rightarrow> real \<Rightarrow> real \<Rightarrow> vertex" where
  "newVertex x y z =
     \<lparr>position = Vector3 x y z, v_faces = [], v_edges = [], quadric = None, v_deleted = False\<rparr>"

definition getVertexIndex ::
  "vertex list \<times> (vkey \<rightharpoonup> nat) \<Rightarrow> real \<Rightarrow> real \<Rightarrow> real \<Rightarrow> nat \<times> vertex list \<times> (vkey \<rightharpoonup> nat)" where
  "getVertexIndex s x y z =
     (case s of (vs, vertexMap) \<Rightarrow>
        let key = (toFixed6 x, toFixed6 y, toFixed6 z) in
        (case vertexMap key of
           Some i \<Rightarrow> (i, vs, vertexMap)
         | None \<Rightarrow> (length vs, vs @ [newVertex x y z], vertexMap(key \<mapsto> length vs))))"

definition computeFaceNormal :: "vertex list \<Rightarrow> face \<Rightarrow> face option" where
  "computeFaceNormal vs f =
     (case f_vertices f of (i0, i1, i2) \<Rightarrow>
        do {
          p0 \<leftarrow> nth_opt vs i0;
          p1 \<leftarrow> nth_opt vs i1;
          p2 \<leftarrow> nth_opt vs i2;
          let edge1 = subVectors (position p1) (position p0);
          let edge2 = subVectors (position p2) (position p0);
          let n = crossVectors edge1 edge2;
          let ar = vlength n / 2;
          Some (f\<lparr>normal := Some (if ar > round64 0.0001 then normalize_v n else n),
                  area := ar\<rparr>)
        })"

definition pushFace :: "nat \<Rightarrow> vertex \<Rightarrow> vertex option" where
  "pushFace fi v = Some (v\<lparr>v_faces := v_faces v @ [fi]\<rparr>)"

fun extractLoop ::
  "real list \<Rightarrow> vertex list \<times> (vkey \<rightharpoonup> nat) \<times> face list
     \<Rightarrow> (vertex list \<times> (vkey \<rightharpoonup> nat) \<times> face list) option" where
  "extractLoop (x0 # y0 # z0 # x1 # y1 # z1 # x2 # y2 # z2 # rest) (vs, vertexMap, fs) =
     (case getVertexIndex (vs, vertexMap) x0 y0 z0 of (i0, s0) \<Rightarrow>
      case getVertexIndex s0 x1 y1 z1 of (i1, s1) \<Rightarrow>
      case getVertexIndex s1 x2 y2 z2 of (i2, vs2, vertexMap2) \<Rightarrow>
        if i0 = i1 \<or> i1 = i2 \<or> i2 = i0 then extractLoop rest (vs2, vertexMap2, fs)
        else
          (case computeFaceNormal vs2
                  \<lparr>f_vertices = (i0, i1, i2), f_deleted = False, normal = None, area = 0\<rparr> of
             None \<Rightarrow> None
           | Some fc \<Rightarrow>
               let fs' = fs @ [fc]; faceIndex = length fs' - 1 in
               (case upd_at vs2 i0 (pushFace faceIndex) \<bind> (\<lambda>vs3.
                     upd_at vs3 i1 (pushFace faceIndex) \<bind> (\<lambda>vs4.
                     upd_at vs4 i2 (pushFace faceIndex))) of
                  None \<Rightarrow> None
                | Some vs5 \<Rightarrow> extractLoop rest (vs5, vertexMap2, fs'))))"
| "extractLoop [] s = Some s"
| "extractLoop ps s = None"

definition extractMeshData :: "real list \<Rightarrow> mesh option" where
  "extractMeshData positions =
     (case extractLoop positions ([], Map.empty, []) of
        None \<Rightarrow> None
      | Some (vs, vertexMap, fs) \<Rightarrow> Some \<lparr>vertices = vs, faces = fs, edges = []\<rparr>)"

section \<open>buildEdges\<close>

text \<open>
  The key of \<^verbatim>\<open>edgeMap\<close> is the string of the two indices in ascending order, joined by
  a comma; it is kept as the ordered pair. The map holds the edge object, that is its
  index in \<^verbatim>\<open>this.edges\<close>.
\<close>

definition newEdge :: "nat \<Rightarrow> nat \<Rightarrow> edge" where
  "newEdge a b =
     \<lparr>e_v0 = min a b, e_v1 = max a b, e_faces = [], cost = Fin 0, target = None,
      e_deleted = False\<rparr>"

definition pushEdge :: "nat \<Rightarrow> vertex \<Rightarrow> vertex option" where
  "pushEdge ei v = Some (v\<lparr>v_edges := v_edges v @ [ei]\<rparr>)"

definition pushEdgeFace :: "nat \<Rightarrow> edge \<Rightarrow> edge option" where
  "pushEdgeFace f e = Some (e\<lparr>e_faces := e_faces e @ [f]\<rparr>)"

type_synonym edge_state = "vertex list \<times> edge list \<times> (nat \<times> nat \<rightharpoonup> nat)"

definition addPair :: "nat \<Rightarrow> nat \<times> nat \<Rightarrow> edge_state \<Rightarrow> edge_state option" where
  "addPair f p s =
     (case p of (a, b) \<Rightarrow> case s of (vs, es, edgeMap) \<Rightarrow>
        let key = (if a < b then (a, b) else (b, a)) in
        do {
          (vs', es', edgeMap') \<leftarrow>
            (case edgeMap key of
               Some ei \<Rightarrow> Some (vs, es, edgeMap)
             | None \<Rightarrow>
                 do {
                   vs1 \<leftarrow> upd_at vs a (pushEdge (length es));
                   vs2 \<leftarrow> upd_at vs1 b (pushEdge (length es));
                   Some (vs2, es @ [newEdge a b], edgeMap(key \<mapsto> length es))
                 });
          ei \<leftarrow> edgeMap' key;
          es'' \<leftarrow> upd_at es' ei (pushEdgeFace f);
          Some (vs', es'', edgeMap')
        })"

definition edgesOfFace :: "face list \<Rightarrow> nat \<Rightarrow> edge_state \<Rightarrow> edge_state option" where
  "edgesOfFace fs f s =
     (case nth_opt fs f of
        None \<Rightarrow> None
      | Some fc \<Rightarrow>
          if f_deleted fc then Some s
          else (case f_vertices fc of (a, b, c) \<Rightarrow> foldM (addPair f) [(a, b), (b, c), (c, a)] s))"

definition buildEdges :: "mesh \<Rightarrow> mesh option" where
  "buildEdges st =
     do {
       (vs, es, edgeMap) \<leftarrow>
         foldM (edgesOfFace (faces st)) [0..<length (faces st)] (vertices st, [], Map.empty);
       Some (st\<lparr>vertices := vs, edges := es\<rparr>)
     }"

section \<open>computeQuadrics and computeEdgeCosts\<close>

definition addQuadric :: "Quadric \<Rightarrow> vertex \<Rightarrow> vertex option" where
  "addQuadric q v =
     (case quadric v of None \<Rightarrow> None | Some p \<Rightarrow> Some (v\<lparr>quadric := Some (q_add p q)\<rparr>))"

definition faceQuadric :: "Vector3 \<Rightarrow> Vector3 \<Rightarrow> real \<Rightarrow> Quadric" where
  "faceQuadric n p0 ar =
     (let d = - dot n p0 in q_multiplyScalar (fromPlane (vx n) (vy n) (vz n) d) ar)"

definition quadricOfFace :: "face \<Rightarrow> vertex list \<Rightarrow> vertex list option" where
  "quadricOfFace fc vs =
     (if f_deleted fc then Some vs
      else (case normal fc of
              None \<Rightarrow> Some vs
            | Some n \<Rightarrow>
                (case f_vertices fc of (i0, i1, i2) \<Rightarrow>
                   do {
                     p0 \<leftarrow> nth_opt vs i0;
                     let q = faceQuadric n (position p0) (area fc);
                     foldM (\<lambda>vIndex vs'. upd_at vs' vIndex (addQuadric q)) [i0, i1, i2] vs
                   })))"

definition computeQuadrics :: "mesh \<Rightarrow> mesh option" where
  "computeQuadrics st =
     do {
       vs \<leftarrow> foldM quadricOfFace (faces st)
               (map (\<lambda>v. v\<lparr>quadric := Some newQuadric\<rparr>) (vertices st));
       Some (st\<lparr>vertices := vs\<rparr>)
     }"

definition edgeTarget :: "vertex \<Rightarrow> vertex \<Rightarrow> Vector3" where
  "edgeTarget a b = v_multiplyScalar (addVectors (position a) (position b)) 0.5"

definition quadricCost :: "Quadric \<Rightarrow> Quadric \<Rightarrow> Vector3 \<Rightarrow> cost" where
  "quadricCost qa qb t = Fin (evaluate (q_add qa qb) (vx t) (vy t) (vz t))"

definition edgeCost :: "vertex list \<Rightarrow> edge \<Rightarrow> edge option" where
  "edgeCost vs e =
     (if e_deleted e then Some e
      else do {
        a \<leftarrow> nth_opt vs (e_v0 e);
        if v_deleted a then Some (e\<lparr>cost := Infinity\<rparr>)
        else do {
          b \<leftarrow> nth_opt vs (e_v1 e);
          if v_deleted b then Some (e\<lparr>cost := Infinity\<rparr>)
          else do {
            qa \<leftarrow> quadric a;
            qb \<leftarrow> quadric b;
            let t = edgeTarget a b;
            let c = quadricCost qa qb t;
            Some (e\<lparr>target := Some t,
                    cost := (if length (e_faces e) < 2 then cost_times c 10 else c)\<rparr>)
          }
        }
      })"

fun mapM :: "('a \<Rightarrow> 'b option) \<Rightarrow> 'a list \<Rightarrow> 'b list option" where
  "mapM f [] = Some []"
| "mapM f (x # xs) =
     (case f x of
        None \<Rightarrow> None
      | Some y \<Rightarrow> (case mapM f xs of None \<Rightarrow> None | Some ys \<Rightarrow> Some (y # ys)))"

definition computeEdgeCosts :: "mesh \<Rightarrow> mesh option" where
  "computeEdgeCosts st =
     do {
       es \<leftarrow> mapM (edgeCost (vertices st)) (edges st);
       Some (st\<lparr>edges := es\<rparr>)
     }"

section \<open>getMinimumCostEdge and collapseEdge\<close>

definition minStep :: "mesh \<Rightarrow> nat \<Rightarrow> nat option \<times> cost \<Rightarrow> (nat option \<times> cost) option" where
  "minStep st i s =
     (case s of (minEdge, minCost) \<Rightarrow>
        do {
          e \<leftarrow> nth_opt (edges st) i;
          if e_deleted e then Some s
          else do {
            a \<leftarrow> nth_opt (vertices st) (e_v0 e);
            if v_deleted a then Some s
            else do {
              b \<leftarrow> nth_opt (vertices st) (e_v1 e);
              if v_deleted b then Some s
              else if cost_less (cost e) minCost then Some (Some i, cost e)
              else Some s
            }
          }
        })"

definition getMinimumCostEdge :: "mesh \<Rightarrow> nat option option" where
  "getMinimumCostEdge st =
     map_option fst (foldM (minStep st) [0..<length (edges st)] (None, Infinity))"

definition markDeleted :: "nat \<Rightarrow> face list \<Rightarrow> face list option" where
  "markDeleted fIndex fs =
     upd_at fs fIndex (\<lambda>f. Some (if \<not> f_deleted f then f\<lparr>f_deleted := True\<rparr> else f))"

definition replaceVertex :: "nat \<Rightarrow> nat \<Rightarrow> nat \<times> nat \<times> nat \<Rightarrow> nat \<times> nat \<times> nat" where
  "replaceVertex v1Index v0Index t =
     (case t of (a, b, c) \<Rightarrow>
        (if a = v1Index then v0Index else a,
         if b = v1Index then v0Index else b,
         if c = v1Index then v0Index else c))"

definition transferFace ::
  "nat \<Rightarrow> nat \<Rightarrow> nat \<Rightarrow> vertex list \<times> face list \<Rightarrow> (vertex list \<times> face list) option" where
  "transferFace v0Index v1Index fIndex s =
     (case s of (vs, fs) \<Rightarrow>
        do {
          fc \<leftarrow> nth_opt fs fIndex;
          if f_deleted fc then Some s
          else do {
            fc' \<leftarrow> computeFaceNormal vs
                     (fc\<lparr>f_vertices := replaceVertex v1Index v0Index (f_vertices fc)\<rparr>);
            v0 \<leftarrow> nth_opt vs v0Index;
            if fIndex \<in> set (v_faces v0) then Some (vs, fs[fIndex := fc'])
            else do {
              vs' \<leftarrow> upd_at vs v0Index (pushFace fIndex);
              Some (vs', fs[fIndex := fc'])
            }
          }
        })"

definition setAdd :: "nat \<Rightarrow> nat list \<Rightarrow> nat list" where
  "setAdd x xs = (if x \<in> set xs then xs else xs @ [x])"

definition affectedOfFace :: "face list \<Rightarrow> nat \<Rightarrow> nat list \<Rightarrow> nat list option" where
  "affectedOfFace fs fIndex aff =
     do {
       fc \<leftarrow> nth_opt fs fIndex;
       if f_deleted fc then Some aff
       else (case f_vertices fc of (a, b, c) \<Rightarrow> Some (setAdd c (setAdd b (setAdd a aff))))
     }"

definition faceLive :: "face list \<Rightarrow> nat \<Rightarrow> bool option" where
  "faceLive fs fIdx = map_option (\<lambda>f. \<not> f_deleted f) (nth_opt fs fIdx)"

definition recostEdge ::
  "vertex list \<Rightarrow> face list \<Rightarrow> nat \<Rightarrow> vertex \<Rightarrow> nat \<Rightarrow> edge list \<Rightarrow> edge list option" where
  "recostEdge vs fs vIndex vertex ei es =
     do {
       e \<leftarrow> nth_opt es ei;
       if e_deleted e then Some es
       else do {
         let otherIndex = (if e_v0 e = vIndex then e_v1 e else e_v0 e);
         other \<leftarrow> nth_opt vs otherIndex;
         if v_deleted other then Some (es[ei := e\<lparr>e_deleted := True\<rparr>])
         else do {
           qv \<leftarrow> quadric vertex;
           qo \<leftarrow> quadric other;
           let t = edgeTarget vertex other;
           let c = quadricCost qv qo t;
           live \<leftarrow> mapM (faceLive fs) (e_faces e);
           let activeFaceCount = length (filter (\<lambda>b. b) live);
           Some (es[ei := e\<lparr>target := Some t,
                             cost := (if activeFaceCount < 2 then cost_times c 10 else c)\<rparr>])
         }
       }
     }"

definition recostVertex :: "vertex list \<Rightarrow> face list \<Rightarrow> nat \<Rightarrow> edge list \<Rightarrow> edge list option" where
  "recostVertex vs fs vIndex es =
     do {
       vertex \<leftarrow> nth_opt vs vIndex;
       if v_deleted vertex then Some es
       else foldM (recostEdge vs fs vIndex vertex) (v_edges vertex) es
     }"

definition collapseEdge :: "mesh \<Rightarrow> nat \<Rightarrow> mesh option" where
  "collapseEdge st ei =
     do {
       edge \<leftarrow> nth_opt (edges st) ei;
       let v0Index = e_v0 edge;
       let v1Index = e_v1 edge;
       v0 \<leftarrow> nth_opt (vertices st) v0Index;
       v1 \<leftarrow> nth_opt (vertices st) v1Index;
       t \<leftarrow> target edge;
       q0 \<leftarrow> quadric v0;
       vs0 \<leftarrow> upd_at (vertices st) v0Index (\<lambda>v. Some (v\<lparr>position := t\<rparr>));
       v1' \<leftarrow> nth_opt vs0 v1Index;
       q1 \<leftarrow> quadric v1';
       vs1 \<leftarrow> upd_at vs0 v0Index (addQuadric q1);
       let sharedFaces = filter (\<lambda>fIdx. fIdx \<in> set (v_faces v1)) (v_faces v0);
       fs1 \<leftarrow> foldM markDeleted sharedFaces (faces st);
       (vs2, fs2) \<leftarrow> foldM (transferFace v0Index v1Index) (v_faces v1) (vs1, fs1);
       vs3 \<leftarrow> upd_at vs2 v1Index (\<lambda>v. Some (v\<lparr>v_deleted := True\<rparr>));
       es1 \<leftarrow> upd_at (edges st) ei (\<lambda>e. Some (e\<lparr>e_deleted := True\<rparr>));
       v0' \<leftarrow> nth_opt vs3 v0Index;
       affectedVertices \<leftarrow> foldM (affectedOfFace fs2) (v_faces v0') [v0Index];
       es2 \<leftarrow> foldM (recostVertex vs3 fs2) affectedVertices es1;
       Some \<lparr>vertices = vs3, faces = fs2, edges = es2\<rparr>
     }"

section \<open>buildGeometry\<close>

fun someLive :: "face list \<Rightarrow> nat list \<Rightarrow> bool option" where
  "someLive fs [] = Some False"
| "someLive fs (f # r) =
     (case nth_opt fs f of
        None \<Rightarrow> None
      | Some fc \<Rightarrow> if \<not> f_deleted fc then Some True else someLive fs r)"

definition mapVertex ::
  "face list \<Rightarrow> nat \<times> vertex \<Rightarrow> (nat \<rightharpoonup> nat) \<times> nat \<Rightarrow> ((nat \<rightharpoonup> nat) \<times> nat) option" where
  "mapVertex fs p s =
     (case p of (oldIndex, v) \<Rightarrow> case s of (vertexMap, newIndex) \<Rightarrow>
        if v_deleted v then Some s
        else do {
          live \<leftarrow> someLive fs (v_faces v);
          if live then Some (vertexMap(oldIndex \<mapsto> newIndex), newIndex + 1) else Some s
        })"

definition emitFace :: "vertex list \<Rightarrow> (nat \<rightharpoonup> nat) \<Rightarrow> face \<Rightarrow> real list \<Rightarrow> real list option" where
  "emitFace vs vertexMap fc positions =
     (if f_deleted fc then Some positions
      else (case f_vertices fc of (i0, i1, i2) \<Rightarrow>
        (case vertexMap i0 of None \<Rightarrow> Some positions | Some n0 \<Rightarrow>
         case vertexMap i1 of None \<Rightarrow> Some positions | Some n1 \<Rightarrow>
         case vertexMap i2 of None \<Rightarrow> Some positions | Some n2 \<Rightarrow>
           if n0 = n1 \<or> n1 = n2 \<or> n2 = n0 then Some positions
           else do {
             a \<leftarrow> nth_opt vs i0;
             b \<leftarrow> nth_opt vs i1;
             c \<leftarrow> nth_opt vs i2;
             let p0 = position a;
             let p1 = position b;
             let p2 = position c;
             Some (positions @ [vx p0, vy p0, vz p0, vx p1, vy p1, vz p1, vx p2, vy p2, vz p2])
           })))"

definition buildGeometry :: "mesh \<Rightarrow> real list option" where
  "buildGeometry st =
     do {
       (vertexMap, newIndex) \<leftarrow>
         foldM (mapVertex (faces st)) (List.enumerate 0 (vertices st)) (Map.empty, 0);
       foldM (emitFace (vertices st) vertexMap) (faces st) []
     }"

section \<open>simplify and the message handler\<close>

text \<open>
  The progress callback is the only effect of \<^verbatim>\<open>simplify\<close> besides its result; the
  posted messages are collected in order. Of a progress message the model keeps which
  one it is and the face counts it reports, not the progress fraction or the wording.
  When an exception ends the call, the messages posted until then stay posted.
\<close>

datatype progress =
    TargetInfo nat enat
  | BuildingEdges
  | ComputingQuadrics
  | CollapsingEdges
  | InitialInfo nat enat
  | NoMoreEdges nat enat
  | CollapseInfo nat int nat
  | CollapsedInfo nat nat
  | BuildingOutput

datatype message = Progress progress | Complete "real list" real real | Error

text \<open>
  \<^verbatim>\<open>Math.max(4, Math.floor(originalFaceCount * (1 - targetReduction)))\<close>, where
  \<^verbatim>\<open>targetReduction\<close> is the binary64 number that the caller passes and
  \<^verbatim>\<open>originalFaceCount\<close> is an array length. The subtraction and the multiplication
  round their results to binary64; \<^verbatim>\<open>Math.floor\<close> and \<^verbatim>\<open>Math.max\<close> are exact. The result
  is an integer from 4 on, or \<^verbatim>\<open>Infinity\<close> when the product overflows, so it is an
  extended natural number.
\<close>

definition targetFaceCount :: "nat \<Rightarrow> real \<Rightarrow> enat" where
  "targetFaceCount originalFaceCount targetReduction =
     (let p = round64 (real originalFaceCount * round64 (1 - targetReduction)) in
      if 2 ^ 1024 \<le> p then \<infinity> else enat (nat (max 4 \<lfloor>p\<rfloor>)))"

definition collapseMessages :: "nat \<Rightarrow> nat \<Rightarrow> nat \<Rightarrow> message list" where
  "collapseMessages collapsed facesBefore facesAfter =
     (if collapsed \<le> 10 \<or> collapsed mod 100 = 0
      then [Progress (CollapseInfo collapsed (int facesBefore - int facesAfter) facesAfter)]
      else [])
     @ (if collapsed mod 100 = 0 then [Progress (CollapsedInfo collapsed facesAfter)] else [])"

text \<open>
  The while loop of \<^verbatim>\<open>simplify\<close>. The counters \<^verbatim>\<open>collapsed\<close> and \<^verbatim>\<open>iteration\<close> start at
  0 and are incremented together, so one counter stands for both; the loop returns it
  with the mesh. \<^verbatim>\<open>edge.debugId\<close> only selects console output and is left out.
\<close>

function collapseLoop ::
  "enat \<Rightarrow> nat \<Rightarrow> mesh \<Rightarrow> nat \<Rightarrow> message list \<Rightarrow> message list \<times> (mesh \<times> nat) option" where
  "collapseLoop tgt maxIterations st iteration msgs =
     (if enat (countActiveFaces st) > tgt \<and> iteration < maxIterations then
        (let facesBefore = countActiveFaces st in
         case getMinimumCostEdge st of
           None \<Rightarrow> (msgs, None)
         | Some None \<Rightarrow>
             (msgs @ [Progress (NoMoreEdges facesBefore tgt)], Some (st, iteration))
         | Some (Some ei) \<Rightarrow>
             (case nth_opt (edges st) ei of
                None \<Rightarrow> (msgs, None)
              | Some edge \<Rightarrow>
                  if cost edge = Infinity
                  then (msgs @ [Progress (NoMoreEdges facesBefore tgt)], Some (st, iteration))
                  else (case collapseEdge st ei of
                          None \<Rightarrow> (msgs, None)
                        | Some st' \<Rightarrow>
                            collapseLoop tgt maxIterations st' (iteration + 1)
                              (msgs @ collapseMessages (iteration + 1) facesBefore
                                        (countActiveFaces st')))))
      else (msgs, Some (st, iteration)))"
  by pat_completeness auto
termination
  by (relation "measure (\<lambda>(tgt, maxIterations, st, iteration, msgs). maxIterations - iteration)")
    auto

definition simplify :: "real list \<Rightarrow> real \<Rightarrow> message list \<times> real list option" where
  "simplify positions targetReduction =
     (case extractMeshData positions of
        None \<Rightarrow> ([], None)
      | Some st0 \<Rightarrow>
          let originalFaceCount = length (faces st0);
              tgt = targetFaceCount originalFaceCount targetReduction;
              m1 = [Progress (TargetInfo originalFaceCount tgt), Progress BuildingEdges]
          in
          (case buildEdges st0 of
             None \<Rightarrow> (m1, None)
           | Some st1 \<Rightarrow>
               let m2 = m1 @ [Progress ComputingQuadrics] in
               (case computeQuadrics st1 \<bind> computeEdgeCosts of
                  None \<Rightarrow> (m2, None)
                | Some st2 \<Rightarrow>
                    let m3 = m2 @ [Progress CollapsingEdges,
                                   Progress (InitialInfo (countActiveFaces st2) tgt)]
                    in
                    (case collapseLoop tgt originalFaceCount st2 0 m3 of
                       (m4, None) \<Rightarrow> (m4, None)
                     | (m4, Some (st3, collapsed)) \<Rightarrow>
                         (m4 @ [Progress BuildingOutput], buildGeometry st3)))))"

definition onmessage :: "real list \<Rightarrow> real \<Rightarrow> message list" where
  "onmessage positions targetReduction =
     (case simplify positions targetReduction of
        (msgs, Some result) \<Rightarrow>
          msgs @ [Complete result (real (length positions) / 9) (real (length result) / 9)]
      | (msgs, None) \<Rightarrow> msgs @ [Error])"

definition vkey :: "Vector3 \<Rightarrow> vkey" where
  "vkey p = (toFixed6 (vx p), toFixed6 (vy p), toFixed6 (vz p))"

definition vlive :: "vertex list \<Rightarrow> nat \<Rightarrow> nat \<Rightarrow> bool" where
  "vlive vs a fi \<longleftrightarrow> \<not> v_deleted (vs ! a) \<and> fi \<in> set (v_faces (vs ! a))"

definition face_ok :: "vertex list \<Rightarrow> nat \<Rightarrow> face \<Rightarrow> bool" where
  "face_ok vs fi fc \<longleftrightarrow>
     (case f_vertices fc of (a, b, c) \<Rightarrow>
        a < length vs \<and> b < length vs \<and> c < length vs \<and>
        (\<not> f_deleted fc \<longrightarrow>
           a \<noteq> b \<and> b \<noteq> c \<and> c \<noteq> a \<and> vlive vs a fi \<and> vlive vs b fi \<and> vlive vs c fi))"

definition mesh_inv :: "vertex list \<Rightarrow> face list \<Rightarrow> bool" where
  "mesh_inv vs fs \<longleftrightarrow>
     (\<forall>i < length vs. \<forall>f \<in> set (v_faces (vs ! i)). f < length fs) \<and>
     (\<forall>fi < length fs. face_ok vs fi (fs ! fi))"

definition ext_inv :: "vertex list \<times> (vkey \<rightharpoonup> nat) \<times> face list \<Rightarrow> bool" where
  "ext_inv s \<longleftrightarrow>
     (case s of (vs, vm, fs) \<Rightarrow>
        (\<forall>k i. vm k = Some i \<longleftrightarrow> i < length vs \<and> vkey (position (vs ! i)) = k) \<and>
        mesh_inv vs fs \<and>
        (\<forall>v \<in> set vs. \<not> v_deleted v \<and> v_edges v = [] \<and> quadric v = None) \<and>
        (\<forall>f \<in> set fs. \<not> f_deleted f \<and> normal f \<noteq> None))"

definition vertex_core :: "vertex \<Rightarrow> Vector3 \<times> nat list \<times> bool" where
  "vertex_core v = (position v, v_faces v, v_deleted v)"

definition face_core :: "face \<Rightarrow> (nat \<times> nat \<times> nat) \<times> bool" where
  "face_core f = (f_vertices f, f_deleted f)"

definition edge_ok :: "nat \<Rightarrow> nat \<Rightarrow> edge \<Rightarrow> bool" where
  "edge_ok nv nf e \<longleftrightarrow>
     e_v0 e < nv \<and> e_v1 e < nv \<and> e_v0 e \<noteq> e_v1 e \<and> (\<forall>f \<in> set (e_faces e). f < nf)"

definition edges_inv :: "mesh \<Rightarrow> bool" where
  "edges_inv st \<longleftrightarrow>
     (\<forall>i < length (vertices st).
        quadric (vertices st ! i) \<noteq> None \<and>
        (\<forall>e \<in> set (v_edges (vertices st ! i)). e < length (edges st))) \<and>
     (\<forall>i < length (edges st).
        edge_ok (length (vertices st)) (length (faces st)) (edges st ! i) \<and>
        target (edges st ! i) \<noteq> None)"

definition kinv :: "vertex list \<Rightarrow> (vkey \<rightharpoonup> nat) \<Rightarrow> bool" where
  "kinv vs vm \<longleftrightarrow> (\<forall>k i. vm k = Some i \<longleftrightarrow> i < length vs \<and> vkey (position (vs ! i)) = k)"

definition others_inv :: "vertex list \<Rightarrow> face list \<Rightarrow> bool" where
  "others_inv vs fs \<longleftrightarrow>
     (\<forall>v \<in> set vs. \<not> v_deleted v \<and> v_edges v = [] \<and> quadric v = None) \<and>
     (\<forall>f \<in> set fs. \<not> f_deleted f \<and> normal f \<noteq> None)"

fun triangles :: "real list \<Rightarrow> (Vector3 \<times> Vector3 \<times> Vector3) list" where
  "triangles (x0 # y0 # z0 # x1 # y1 # z1 # x2 # y2 # z2 # rest) =
     (Vector3 x0 y0 z0, Vector3 x1 y1 z1, Vector3 x2 y2 z2) # triangles rest"
| "triangles ps = []"

definition keys3 :: "Vector3 \<times> Vector3 \<times> Vector3 \<Rightarrow> vkey \<times> vkey \<times> vkey" where
  "keys3 t = (case t of (p, q, r) \<Rightarrow> (vkey p, vkey q, vkey r))"

definition distinct3 :: "'a \<times> 'a \<times> 'a \<Rightarrow> bool" where
  "distinct3 t = (case t of (a, b, c) \<Rightarrow> a \<noteq> b \<and> b \<noteq> c \<and> c \<noteq> a)"

definition face_keys :: "vertex list \<Rightarrow> face \<Rightarrow> vkey \<times> vkey \<times> vkey" where
  "face_keys vs f =
     (case f_vertices f of (a, b, c) \<Rightarrow>
        (vkey (position (vs ! a)), vkey (position (vs ! b)), vkey (position (vs ! c))))"

definition ext_vs :: "vertex list \<Rightarrow> vertex list \<Rightarrow> bool" where
  "ext_vs vs vs' \<longleftrightarrow>
     length vs \<le> length vs' \<and> (\<forall>j < length vs. position (vs' ! j) = position (vs ! j))"

definition key_set :: "vertex list \<Rightarrow> vkey set" where
  "key_set vs = (\<lambda>v. vkey (position v)) ` set vs"

text \<open>
  What \<^verbatim>\<open>computeFaceNormal\<close> stores on a face, in terms of the positions of its three
  vertices: the area is half the length of the cross product of the two edge vectors at
  the first vertex, and the normal is that cross product, scaled to unit length only
  when the area exceeds the threshold.
\<close>

definition faceCross :: "vertex list \<Rightarrow> face \<Rightarrow> Vector3" where
  "faceCross vs f =
     (case f_vertices f of (a, b, c) \<Rightarrow>
        crossVectors (subVectors (position (vs ! b)) (position (vs ! a)))
          (subVectors (position (vs ! c)) (position (vs ! a))))"

definition face_geom :: "vertex list \<Rightarrow> face \<Rightarrow> bool" where
  "face_geom vs f \<longleftrightarrow>
     area f = vlength (faceCross vs f) / 2 \<and>
     normal f =
       Some (if vlength (faceCross vs f) / 2 > round64 0.0001
             then normalize_v (faceCross vs f) else faceCross vs f)"

definition tri_keys :: "real list \<Rightarrow> vkey set" where
  "tri_keys ps = (\<Union>t \<in> set (triangles ps). case t of (p, q, r) \<Rightarrow> {vkey p, vkey q, vkey r})"

definition be_inv :: "vertex list \<Rightarrow> nat \<Rightarrow> edge_state \<Rightarrow> bool" where
  "be_inv vs0 nf s \<longleftrightarrow>
     (case s of (vs, es, em) \<Rightarrow>
        length vs = length vs0 \<and>
        (\<forall>j < length vs0.
           position (vs ! j) = position (vs0 ! j) \<and> v_faces (vs ! j) = v_faces (vs0 ! j) \<and>
           v_deleted (vs ! j) = v_deleted (vs0 ! j) \<and> quadric (vs ! j) = quadric (vs0 ! j)) \<and>
        (\<forall>k i. em k = Some i \<longrightarrow> i < length es) \<and>
        (\<forall>j < length vs0. \<forall>e \<in> set (v_edges (vs ! j)). e < length es) \<and>
        (\<forall>i < length es. edge_ok (length vs0) nf (es ! i) \<and> \<not> e_deleted (es ! i)))"

definition same_core :: "vertex list \<Rightarrow> vertex list \<Rightarrow> bool" where
  "same_core vs0 vs \<longleftrightarrow>
     length vs = length vs0 \<and>
     (\<forall>j < length vs0.
        position (vs ! j) = position (vs0 ! j) \<and> v_faces (vs ! j) = v_faces (vs0 ! j) \<and>
        v_deleted (vs ! j) = v_deleted (vs0 ! j))"

definition cq_inv :: "vertex list \<Rightarrow> vertex list \<Rightarrow> bool" where
  "cq_inv vs0 vs \<longleftrightarrow>
     length vs = length vs0 \<and>
     (\<forall>j < length vs0.
        position (vs ! j) = position (vs0 ! j) \<and> v_faces (vs ! j) = v_faces (vs0 ! j) \<and>
        v_deleted (vs ! j) = v_deleted (vs0 ! j) \<and> v_edges (vs ! j) = v_edges (vs0 ! j) \<and>
        quadric (vs ! j) \<noteq> None)"

definition costed :: "vertex list \<Rightarrow> edge \<Rightarrow> edge" where
  "costed vs e =
     (if e_deleted e then e
      else if v_deleted (vs ! e_v0 e) \<or> v_deleted (vs ! e_v1 e) then e\<lparr>cost := Infinity\<rparr>
      else
        let t = edgeTarget (vs ! e_v0 e) (vs ! e_v1 e);
            c = quadricCost (the (quadric (vs ! e_v0 e))) (the (quadric (vs ! e_v1 e))) t
        in e\<lparr>target := Some t, cost := (if length (e_faces e) < 2 then cost_times c 10 else c)\<rparr>)"

definition keep :: "face list \<Rightarrow> vertex \<Rightarrow> bool" where
  "keep fs v \<longleftrightarrow> \<not> v_deleted v \<and> (\<exists>f \<in> set (v_faces v). \<not> f_deleted (fs ! f))"

definition face_coords :: "vertex list \<Rightarrow> face \<Rightarrow> real list" where
  "face_coords vs f =
     (case f_vertices f of (a, b, c) \<Rightarrow>
        [vx (position (vs ! a)), vy (position (vs ! a)), vz (position (vs ! a)),
         vx (position (vs ! b)), vy (position (vs ! b)), vz (position (vs ! b)),
         vx (position (vs ! c)), vy (position (vs ! c)), vz (position (vs ! c))])"

definition faceStream :: "vertex list \<Rightarrow> face list \<Rightarrow> real list" where
  "faceStream vs fs = concat (map (face_coords vs) (filter (\<lambda>f. \<not> f_deleted f) fs))"

definition vm_inv :: "nat \<Rightarrow> (nat \<rightharpoonup> nat) \<times> nat \<Rightarrow> bool" where
  "vm_inv n s \<longleftrightarrow>
     (case s of (m, k) \<Rightarrow>
        (\<forall>i j. m i = Some j \<longrightarrow> i < n \<and> j < k) \<and>
        (\<forall>i i' j. m i = Some j \<longrightarrow> m i' = Some j \<longrightarrow> i = i'))"

definition tri_in_range :: "nat \<Rightarrow> nat \<times> nat \<times> nat \<Rightarrow> bool" where
  "tri_in_range n t = (case t of (x, y, z) \<Rightarrow> x < n \<and> y < n \<and> z < n)"

definition tf_inv ::
  "nat \<Rightarrow> nat \<Rightarrow> vertex list \<Rightarrow> face list \<Rightarrow> nat set \<Rightarrow> vertex list \<times> face list \<Rightarrow> bool" where
  "tf_inv a b vs1 fs1 P s \<longleftrightarrow>
     (case s of (vs, fs) \<Rightarrow>
        length vs = length vs1 \<and> length fs = length fs1 \<and>
        (\<forall>j < length vs1.
           position (vs ! j) = position (vs1 ! j) \<and> v_deleted (vs ! j) = v_deleted (vs1 ! j) \<and>
           quadric (vs ! j) = quadric (vs1 ! j) \<and> v_edges (vs ! j) = v_edges (vs1 ! j) \<and>
           set (v_faces (vs ! j)) =
             (if j = a then set (v_faces (vs1 ! j)) \<union> {f \<in> P. \<not> f_deleted (fs1 ! f)}
              else set (v_faces (vs1 ! j)))) \<and>
        (\<forall>i < length fs1.
           f_deleted (fs ! i) = f_deleted (fs1 ! i) \<and>
           f_vertices (fs ! i) =
             (if i \<in> P \<and> \<not> f_deleted (fs1 ! i) then replaceVertex b a (f_vertices (fs1 ! i))
              else f_vertices (fs1 ! i))))"

definition ef_inv :: "edge list \<Rightarrow> edge list \<Rightarrow> bool" where
  "ef_inv es0 es \<longleftrightarrow>
     length es = length es0 \<and>
     (\<forall>i < length es0.
        e_v0 (es ! i) = e_v0 (es0 ! i) \<and> e_v1 (es ! i) = e_v1 (es0 ! i) \<and>
        e_faces (es ! i) = e_faces (es0 ! i) \<and>
        (e_deleted (es0 ! i) \<longrightarrow> e_deleted (es ! i)) \<and>
        (target (es0 ! i) \<noteq> None \<longrightarrow> target (es ! i) \<noteq> None))"

definition mesh_ok :: "mesh \<Rightarrow> bool" where
  "mesh_ok st \<longleftrightarrow> mesh_inv (vertices st) (faces st) \<and> edges_inv st"

definition prepare :: "real list \<Rightarrow> mesh option" where
  "prepare positions =
     extractMeshData positions \<bind> buildEdges \<bind> computeQuadrics \<bind> computeEdgeCosts"

definition flags_mono :: "mesh \<Rightarrow> mesh \<Rightarrow> bool" where
  "flags_mono st st' \<longleftrightarrow>
     length (vertices st') = length (vertices st) \<and>
     length (faces st') = length (faces st) \<and>
     length (edges st') = length (edges st) \<and>
     (\<forall>j < length (vertices st). v_deleted (vertices st ! j) \<longrightarrow> v_deleted (vertices st' ! j)) \<and>
     (\<forall>i < length (faces st). f_deleted (faces st ! i) \<longrightarrow> f_deleted (faces st' ! i)) \<and>
     (\<forall>i < length (edges st). e_deleted (edges st ! i) \<longrightarrow> e_deleted (edges st' ! i))"

definition selectable :: "mesh \<Rightarrow> nat \<Rightarrow> bool" where
  "selectable st i \<longleftrightarrow>
     i < length (edges st) \<and> \<not> e_deleted (edges st ! i) \<and>
     \<not> v_deleted (vertices st ! e_v0 (edges st ! i)) \<and>
     \<not> v_deleted (vertices st ! e_v1 (edges st ! i)) \<and>
     cost (edges st ! i) \<noteq> Infinity"

definition min_inv :: "mesh \<Rightarrow> nat option \<times> cost \<Rightarrow> bool" where
  "min_inv st s \<longleftrightarrow> (case fst s of None \<Rightarrow> True | Some i \<Rightarrow> selectable st i)"

definition noStatus :: "message list \<Rightarrow> bool" where
  "noStatus ms \<longleftrightarrow> (\<forall>k t. Progress (NoMoreEdges k t) \<notin> set ms)"

definition startMessages :: "nat \<Rightarrow> enat \<Rightarrow> nat \<Rightarrow> message list" where
  "startMessages n tgt active =
     [Progress (TargetInfo n tgt), Progress BuildingEdges, Progress ComputingQuadrics,
      Progress CollapsingEdges, Progress (InitialInfo active tgt)]"

section \<open>Example inputs\<close>

text \<open>Scenario B: a flat unit square in the plane \<open>z = 0\<close>, given as two triangles.\<close>

definition scenarioB :: "real list" where
  "scenarioB = [0, 0, 0, 1, 0, 0, 1, 1, 0, 0, 0, 0, 1, 1, 0, 0, 1, 0]"

text \<open>
  Scenario C: the square of scenario B with a third triangle between its two, whose first
  two vertices coincide.
\<close>

definition scenarioC :: "real list" where
  "scenarioC =
     [0, 0, 0, 1, 0, 0, 1, 1, 0,
      0, 0, 0, 0, 0, 0, 1, 0, 0,
      0, 0, 0, 1, 1, 0, 0, 1, 0]"

text \<open>
  A flat strip of five triangles in the plane \<open>z = 0\<close>; the first edge of the first
  triangle is shared with the second triangle.
\<close>

definition strip5 :: "real list" where
  "strip5 =
     [1, 0, 0, 0, 1, 0, 0, 0, 0,
      1, 0, 0, 1, 1, 0, 0, 1, 0,
      1, 0, 0, 2, 0, 0, 1, 1, 0,
      2, 0, 0, 2, 1, 0, 1, 1, 0,
      2, 0, 0, 3, 0, 0, 2, 1, 0]"

text \<open>
  Seven flat triangles in the plane \<open>z = 0\<close>: two triangles with no vertex in common,
  and five triangles that each join one vertex of the first, one vertex of the second
  and one further point.
\<close>

definition exhaust7 :: "real list" where
  "exhaust7 =
     [4, -4, 0, 0, 0, 0, 8, 0, 0,
      3, 4, 0, 4, 4, 0, 4, 8, 0,
      0, 0, 0, 4, 4, 0, 4, 2, 0,
      4, 4, 0, 8, 0, 0, 4, 2, 0,
      8, 0, 0, 4, 8, 0, 8, 8, 0,
      4, 8, 0, 0, 0, 0, 0, 8, 0,
      8, 0, 0, 4, 4, 0, 5, 4, 0]"


section \<open>Exhaustion (C9)\<close>


definition beforeCosts :: "real list \<Rightarrow> mesh option" where
  "beforeCosts positions = extractMeshData positions \<bind> buildEdges \<bind> computeQuadrics"

definition edgeCosts_ready :: "mesh \<Rightarrow> bool" where
  "edgeCosts_ready st \<longleftrightarrow>
     (\<forall>i < length (edges st).
        e_v0 (edges st ! i) < length (vertices st) \<and>
        e_v1 (edges st ! i) < length (vertices st) \<and>
        (\<forall>f \<in> set (e_faces (edges st ! i)).
           f < length (faces st) \<and> \<not> f_deleted (faces st ! f))) \<and>
     (\<forall>j < length (vertices st). quadric (vertices st ! j) \<noteq> None)"

definition liveFaceCount :: "mesh \<Rightarrow> edge \<Rightarrow> nat" where
  "liveFaceCount st e = length (filter (\<lambda>f. \<not> f_deleted (faces st ! f)) (e_faces e))"

definition midpointOf :: "Vector3 \<Rightarrow> Vector3 \<Rightarrow> Vector3" where
  "midpointOf p q = Vector3 ((vx p + vx q) / 2) ((vy p + vy q) / 2) ((vz p + vz q) / 2)"

text \<open>
  What the Cost Evaluator is specified to do with one edge: nothing for a deleted
  edge; cost \<open>Infinity\<close> when an endpoint is deleted; otherwise the midpoint of the
  endpoints as target and, as cost, the sum of the endpoint quadrics evaluated there,
  times 10 when fewer than two of its incident faces are live.
\<close>

definition specCost :: "mesh \<Rightarrow> edge \<Rightarrow> edge" where
  "specCost st e =
     (if e_deleted e then e
      else if v_deleted (vertices st ! e_v0 e) \<or> v_deleted (vertices st ! e_v1 e)
      then e\<lparr>cost := Infinity\<rparr>
      else
        let m = midpointOf (position (vertices st ! e_v0 e)) (position (vertices st ! e_v1 e));
            q = q_add (the (quadric (vertices st ! e_v0 e))) (the (quadric (vertices st ! e_v1 e)));
            c = evaluate q (vx m) (vy m) (vz m)
        in e\<lparr>target := Some m, cost := Fin (if liveFaceCount st e < 2 then 10 * c else c)\<rparr>)"









definition nearPoints :: "real list" where
  "nearPoints = [0, 0, 0, 1 / 2097152, 0, 0, 0, 1, 0]"

section \<open>Rounding to binary64\<close>

lemma expo_hi_bounds:
  "1 \<le> x \<Longrightarrow> 2 ^ expo_hi x \<le> x \<and> x < 2 ^ Suc (expo_hi x)"
proof (induction x rule: expo_hi.induct)
  case (1 x)
  show ?case
  proof (cases "x < 2")
    case True
    then have "expo_hi x = 0" by (simp add: expo_hi.simps)
    with True "1.prems" show ?thesis by simp
  next
    case False
    then have e: "expo_hi x = Suc (expo_hi (x / 2))" by (subst expo_hi.simps) simp
    from False have "1 \<le> x / 2" by simp
    from "1.IH" [OF False this]
    have "2 ^ expo_hi (x / 2) \<le> x / 2" "x / 2 < 2 ^ Suc (expo_hi (x / 2))" by simp_all
    then show ?thesis unfolding e by simp
  qed
qed

lemma roundTiesToEven_of_int: "roundTiesToEven (of_int k) = k"
  by (simp add: roundTiesToEven_def)

lemma round64_of_nat:
  assumes "n < 2 ^ 53"
  shows "round64 (real n) = real n"
proof (cases "n = 0")
  case True
  then show ?thesis by (simp add: round64_def)
next
  case False
  then have x1: "1 \<le> real n" by simp
  define e where "e = expo_hi (real n)"
  from expo_hi_bounds [OF x1] have lo: "2 ^ e \<le> real n" by (simp add: e_def)
  have "real n < 2 ^ 53" using assms by (metis of_nat_less_iff of_nat_numeral of_nat_power)
  with lo have "(2::real) ^ e < 2 ^ 53" by linarith
  then have e53: "e < 53" by (rule power_less_imp_less_exp [rotated]) simp
  define k where "k = 52 - e"
  have u: "pow2 (max (binade \<bar>real n\<bar>) (- 1022) - 52) = 1 / 2 ^ k"
  proof -
    have "binade \<bar>real n\<bar> = int e" using x1 by (simp add: binade_def e_def)
    then have m: "max (binade \<bar>real n\<bar>) (- 1022) - 52 = int e - 52" by simp
    show ?thesis
    proof (cases "e = 52")
      case True
      then show ?thesis unfolding m by (simp add: pow2_def k_def)
    next
      case False
      with e53 have "int e - 52 < 0" by simp
      moreover have "nat (52 - int e) = k" using e53 by (simp add: k_def)
      ultimately show ?thesis unfolding m by (simp add: pow2_def)
    qed
  qed
  have q: "real n / (1 / 2 ^ k) = of_int (int n * 2 ^ k)" by simp
  have "round64 (real n) = of_int (roundTiesToEven (real n / (1 / 2 ^ k))) * (1 / 2 ^ k)"
    using False u by (simp add: round64_def Let_def)
  also have "\<dots> = of_int (int n * 2 ^ k) * (1 / 2 ^ k)"
    unfolding q roundTiesToEven_of_int ..
  also have "\<dots> = real n" by simp
  finally show ?thesis .
qed

lemma round64_one: "round64 1 = 1"
  using round64_of_nat [of 1] by simp

lemma targetFaceCount_ge4: "4 \<le> targetFaceCount n r"
proof -
  have "4 \<le> nat (max 4 z)" for z :: int by arith
  then show ?thesis by (simp add: targetFaceCount_def Let_def numeral_eq_enat)
qed

lemma targetFaceCount_zero:
  assumes "n < 2 ^ 53"
  shows "targetFaceCount n 0 = max 4 (enat n)"
proof -
  have p: "round64 (real n * round64 (1 - 0)) = real n"
    using round64_of_nat [OF assms] by (simp add: round64_one)
  have "real n < 2 ^ 53" using assms by (metis of_nat_less_iff of_nat_numeral of_nat_power)
  moreover have "(2::real) ^ 53 \<le> 2 ^ 1024" by simp
  ultimately have "\<not> 2 ^ 1024 \<le> real n" by linarith
  then have "targetFaceCount n 0 = enat (nat (max 4 (int n)))"
    unfolding targetFaceCount_def p by (simp add: Let_def)
  also have "\<dots> = max 4 (enat n)" by (simp add: max_def numeral_eq_enat)
  finally show ?thesis .
qed

lemmas round_defs =
  round64_def binade_def pow2_def roundTiesToEven_def expo_hi.simps expo_lo.simps Let_def

text \<open>The binary64 number that the literal \<^verbatim>\<open>0.0001\<close> denotes is \<open>7378697629483821 / 2\<^sup>6\<^sup>6\<close>.\<close>

lemma round64_literal: "round64 0.0001 = 7378697629483821 / 73786976294838206464"
  by (simp add: round_defs)

lemma nth_opt_Some: "nth_opt xs i = Some x \<longleftrightarrow> i < length xs \<and> xs ! i = x"
  by (auto simp: nth_opt_def)

lemma nth_opt_None: "nth_opt xs i = None \<longleftrightarrow> \<not> i < length xs"
  by (auto simp: nth_opt_def)

lemma nth_opt_in: "i < length xs \<Longrightarrow> nth_opt xs i = Some (xs ! i)"
  by (simp add: nth_opt_def)

lemma upd_at_Some:
  "upd_at xs i f = Some ys \<longleftrightarrow> i < length xs \<and> (\<exists>y. f (xs ! i) = Some y \<and> ys = xs[i := y])"
  by (auto simp: upd_at_def split: option.splits)

lemma upd_at_in: "i < length xs \<Longrightarrow> f (xs ! i) = Some y \<Longrightarrow> upd_at xs i f = Some (xs[i := y])"
  by (simp add: upd_at_def)

lemma foldM_append:
  "foldM f (xs @ ys) s = (case foldM f xs s of None \<Rightarrow> None | Some s' \<Rightarrow> foldM f ys s')"
  by (induction xs arbitrary: s) (auto split: option.splits)

lemma foldM_total:
  assumes "I s" and "\<And>x s. x \<in> set xs \<Longrightarrow> I s \<Longrightarrow> \<exists>s'. f x s = Some s' \<and> I s'"
  shows "\<exists>s'. foldM f xs s = Some s' \<and> I s'"
  using assms
proof (induction xs arbitrary: s)
  case Nil
  then show ?case by simp
next
  case (Cons x xs)
  from Cons.prems obtain s1 where s1: "f x s = Some s1" "I s1" by (meson list.set_intros(1))
  have "\<exists>s'. foldM f xs s1 = Some s' \<and> I s'"
    by (rule Cons.IH [OF s1(2)]) (use Cons.prems(2) in auto)
  with s1 show ?case by simp
qed

lemma foldM_pres:
  assumes "foldM f xs s = Some s'" and "I s"
    and "\<And>x s s'. x \<in> set xs \<Longrightarrow> I s \<Longrightarrow> f x s = Some s' \<Longrightarrow> I s'"
  shows "I s'"
  using assms
proof (induction xs arbitrary: s)
  case Nil
  then show ?case by simp
next
  case (Cons x xs)
  from Cons.prems(1) obtain s1 where s1: "f x s = Some s1" "foldM f xs s1 = Some s'"
    by (auto split: option.splits)
  have "I s1" using Cons.prems(2,3) s1(1) by auto
  then show ?case using Cons.IH [OF s1(2)] Cons.prems(3) by auto
qed

lemma mapM_total:
  assumes "\<And>x. x \<in> set xs \<Longrightarrow> \<exists>y. f x = Some y"
  shows "\<exists>ys. mapM f xs = Some ys"
  using assms
proof (induction xs)
  case Nil
  then show ?case by simp
next
  case (Cons x xs)
  then obtain y where "f x = Some y" by (meson list.set_intros(1))
  moreover from Cons obtain ys where "mapM f xs = Some ys" by (meson list.set_intros(2))
  ultimately show ?case by simp
qed

lemma mapM_Some:
  "mapM f xs = Some ys \<Longrightarrow> length ys = length xs \<and> (\<forall>i < length xs. f (xs ! i) = Some (ys ! i))"
proof (induction xs arbitrary: ys)
  case Nil
  then show ?case by simp
next
  case (Cons x xs)
  then obtain y ys' where y: "f x = Some y" "mapM f xs = Some ys'" "ys = y # ys'"
    by (auto split: option.splits)
  with Cons.IH [OF y(2)] show ?case by (auto simp: nth_Cons split: nat.splits)
qed

lemma getVertexIndex_cases:
  assumes "getVertexIndex (vs, vm) x y z = (i, vs', vm')"
  shows "(vm (vkey (Vector3 x y z)) = Some i \<and> vs' = vs \<and> vm' = vm) \<or>
         (vm (vkey (Vector3 x y z)) = None \<and> i = length vs \<and> vs' = vs @ [newVertex x y z] \<and>
          vm' = vm(vkey (Vector3 x y z) \<mapsto> length vs))"
  using assms by (auto simp: getVertexIndex_def vkey_def Let_def split: option.splits)

lemma getVertexIndex_kinv:
  assumes K: "kinv vs vm" and g: "getVertexIndex (vs, vm) x y z = (i, vs', vm')"
  shows "kinv vs' vm'" and "i < length vs'" and "vkey (position (vs' ! i)) = vkey (Vector3 x y z)"
proof -
  let ?k = "vkey (Vector3 x y z)"
  from getVertexIndex_cases [OF g] consider
    (old) "vm ?k = Some i" "vs' = vs" "vm' = vm"
    | (new) "vm ?k = None" "i = length vs" "vs' = vs @ [newVertex x y z]"
        "vm' = vm(?k \<mapsto> length vs)"
    by auto
  then have "kinv vs' vm' \<and> i < length vs' \<and> vkey (position (vs' ! i)) = ?k"
  proof cases
    case old
    from K old(1) have "i < length vs \<and> vkey (position (vs ! i)) = ?k"
      unfolding kinv_def by blast
    with K old show ?thesis by simp
  next
    case new
    have pos: "position (newVertex x y z) = Vector3 x y z" by (simp add: newVertex_def)
    have "kinv vs' vm'"
      unfolding kinv_def
    proof (intro allI)
      fix k j
      show "vm' k = Some j \<longleftrightarrow> j < length vs' \<and> vkey (position (vs' ! j)) = k"
      proof (cases "j < length vs")
        case True
        from K have "vm k = Some j \<longleftrightarrow> j < length vs \<and> vkey (position (vs ! j)) = k"
          unfolding kinv_def by blast
        moreover from K True new(1) have "vkey (position (vs ! j)) \<noteq> ?k"
          unfolding kinv_def by (metis option.distinct(1))
        ultimately show ?thesis using True new pos by (auto simp: nth_append)
      next
        case False
        from K False have "vm k \<noteq> Some j" unfolding kinv_def by blast
        with False new pos show ?thesis by (auto simp: nth_append)
      qed
    qed
    with new pos show ?thesis by (simp add: nth_append)
  qed
  then show "kinv vs' vm'" and "i < length vs'" and "vkey (position (vs' ! i)) = vkey (Vector3 x y z)"
    by auto
qed

lemma kinv_index_eq:
  assumes "kinv vs vm" "i < length vs" "j < length vs"
  shows "i = j \<longleftrightarrow> vkey (position (vs ! i)) = vkey (position (vs ! j))"
  using assms unfolding kinv_def by (metis option.inject)

lemma mesh_inv_snoc_vertex:
  assumes M: "mesh_inv vs fs" and v: "v_faces v = []"
  shows "mesh_inv (vs @ [v]) fs"
proof -
  have 1: "\<forall>i < length (vs @ [v]). \<forall>f \<in> set (v_faces ((vs @ [v]) ! i)). f < length fs"
  proof (intro allI impI)
    fix i assume "i < length (vs @ [v])"
    then consider "i < length vs" | "i = length vs" by force
    then show "\<forall>f \<in> set (v_faces ((vs @ [v]) ! i)). f < length fs"
    proof cases
      case 1
      with M show ?thesis by (simp add: mesh_inv_def nth_append)
    next
      case 2
      with v show ?thesis by simp
    qed
  qed
  have 2: "\<forall>fi < length fs. face_ok (vs @ [v]) fi (fs ! fi)"
  proof (intro allI impI)
    fix fi assume "fi < length fs"
    with M have "face_ok vs fi (fs ! fi)" by (simp add: mesh_inv_def)
    then show "face_ok (vs @ [v]) fi (fs ! fi)"
      by (cases "f_vertices (fs ! fi)") (simp add: face_ok_def vlive_def nth_append)
  qed
  from 1 2 show ?thesis by (simp add: mesh_inv_def)
qed

lemma ext_inv_alt: "ext_inv (vs, vm, fs) \<longleftrightarrow> kinv vs vm \<and> mesh_inv vs fs \<and> others_inv vs fs"
  by (simp add: ext_inv_def kinv_def others_inv_def)

lemma getVertexIndex_ext:
  assumes E: "ext_inv (vs, vm, fs)" and g: "getVertexIndex (vs, vm) x y z = (i, vs', vm')"
  shows "ext_inv (vs', vm', fs)"
proof -
  from E have K: "kinv vs vm" and M: "mesh_inv vs fs" and O: "others_inv vs fs"
    by (simp_all add: ext_inv_alt)
  have K': "kinv vs' vm'" by (rule getVertexIndex_kinv(1) [OF K g])
  from getVertexIndex_cases [OF g] have "vs' = vs \<or> vs' = vs @ [newVertex x y z]" by blast
  then have "mesh_inv vs' fs \<and> others_inv vs' fs"
  proof
    assume "vs' = vs" with M O show ?thesis by simp
  next
    assume v: "vs' = vs @ [newVertex x y z]"
    have "mesh_inv vs' fs" unfolding v by (rule mesh_inv_snoc_vertex [OF M]) (simp add: newVertex_def)
    moreover have "others_inv vs' fs" using O unfolding v by (auto simp: others_inv_def newVertex_def)
    ultimately show ?thesis ..
  qed
  with K' show ?thesis by (simp add: ext_inv_alt)
qed

lemma getVertexIndex_prefix:
  assumes g: "getVertexIndex (vs, vm) x y z = (i, vs', vm')"
  shows "length vs \<le> length vs'" and "\<And>j. j < length vs \<Longrightarrow> vs' ! j = vs ! j"
  using getVertexIndex_cases [OF g] by (auto simp: nth_append)

lemma computeFaceNormal_Some:
  assumes "f_vertices f = (i0, i1, i2)" "i0 < length vs" "i1 < length vs" "i2 < length vs"
  shows "\<exists>fc. computeFaceNormal vs f = Some fc \<and> f_vertices fc = f_vertices f \<and>
           f_deleted fc = f_deleted f \<and> normal fc \<noteq> None"
  using assms by (simp add: computeFaceNormal_def nth_opt_def Let_def)

lemma push3_Some:
  assumes r: "i0 < length vs" "i1 < length vs" "i2 < length vs"
  shows "(upd_at vs i0 (pushFace n) \<bind> (\<lambda>vs3. upd_at vs3 i1 (pushFace n) \<bind>
            (\<lambda>vs4. upd_at vs4 i2 (pushFace n)))) =
         Some (vs[i0 := (vs ! i0)\<lparr>v_faces := v_faces (vs ! i0) @ [n]\<rparr>,
                  i1 := ((vs[i0 := (vs ! i0)\<lparr>v_faces := v_faces (vs ! i0) @ [n]\<rparr>]) ! i1)
                          \<lparr>v_faces := v_faces ((vs[i0 := (vs ! i0)\<lparr>v_faces := v_faces (vs ! i0) @ [n]\<rparr>]) ! i1) @ [n]\<rparr>,
                  i2 := ((vs[i0 := (vs ! i0)\<lparr>v_faces := v_faces (vs ! i0) @ [n]\<rparr>,
                    i1 := ((vs[i0 := (vs ! i0)\<lparr>v_faces := v_faces (vs ! i0) @ [n]\<rparr>]) ! i1)
                          \<lparr>v_faces := v_faces ((vs[i0 := (vs ! i0)\<lparr>v_faces := v_faces (vs ! i0) @ [n]\<rparr>]) ! i1) @ [n]\<rparr>]) ! i2)
                     \<lparr>v_faces := v_faces ((vs[i0 := (vs ! i0)\<lparr>v_faces := v_faces (vs ! i0) @ [n]\<rparr>,
                    i1 := ((vs[i0 := (vs ! i0)\<lparr>v_faces := v_faces (vs ! i0) @ [n]\<rparr>]) ! i1)
                          \<lparr>v_faces := v_faces ((vs[i0 := (vs ! i0)\<lparr>v_faces := v_faces (vs ! i0) @ [n]\<rparr>]) ! i1) @ [n]\<rparr>]) ! i2) @ [n]\<rparr>])"
  using r by (simp add: upd_at_def pushFace_def)

lemma push3_char:
  assumes r: "i0 < length vs" "i1 < length vs" "i2 < length vs"
    and d: "i0 \<noteq> i1" "i1 \<noteq> i2" "i2 \<noteq> i0"
  shows "\<exists>vs5. (upd_at vs i0 (pushFace n) \<bind> (\<lambda>vs3. upd_at vs3 i1 (pushFace n) \<bind>
            (\<lambda>vs4. upd_at vs4 i2 (pushFace n)))) = Some vs5 \<and> length vs5 = length vs \<and>
          (\<forall>j < length vs. vs5 ! j =
             (if j = i0 \<or> j = i1 \<or> j = i2 then (vs ! j)\<lparr>v_faces := v_faces (vs ! j) @ [n]\<rparr>
              else vs ! j))"
  unfolding push3_Some [OF r] using r d by (auto simp: nth_list_update)

lemma push_face_ext:
  assumes E: "ext_inv (vs, vm, fs)"
    and r: "i0 < length vs" "i1 < length vs" "i2 < length vs"
    and d: "i0 \<noteq> i1" "i1 \<noteq> i2" "i2 \<noteq> i0"
    and fc: "f_vertices fc = (i0, i1, i2)" "\<not> f_deleted fc" "normal fc \<noteq> None"
    and len: "length vs5 = length vs"
    and ch: "\<forall>j < length vs. vs5 ! j =
             (if j = i0 \<or> j = i1 \<or> j = i2
              then (vs ! j)\<lparr>v_faces := v_faces (vs ! j) @ [length fs]\<rparr> else vs ! j)"
  shows "ext_inv (vs5, vm, fs @ [fc])"
proof -
  from E have K: "kinv vs vm" and M: "mesh_inv vs fs" and O: "others_inv vs fs"
    by (simp_all add: ext_inv_alt)
  have pos: "\<And>j. j < length vs \<Longrightarrow> position (vs5 ! j) = position (vs ! j)"
    using ch by auto
  have del: "\<And>j. j < length vs \<Longrightarrow> v_deleted (vs5 ! j) = v_deleted (vs ! j)"
    using ch by auto
  have oth: "\<And>j. j < length vs \<Longrightarrow> v_edges (vs5 ! j) = v_edges (vs ! j) \<and>
      quadric (vs5 ! j) = quadric (vs ! j)"
    using ch by auto
  have fcs: "\<And>j. j < length vs \<Longrightarrow> set (v_faces (vs5 ! j)) =
      (if j = i0 \<or> j = i1 \<or> j = i2 then insert (length fs) (set (v_faces (vs ! j)))
       else set (v_faces (vs ! j)))"
    using ch by auto
  have K': "kinv vs5 vm" using K pos len unfolding kinv_def by metis
  have nd: "\<And>j. j < length vs \<Longrightarrow> \<not> v_deleted (vs ! j)"
    using O by (auto simp: others_inv_def)
  have On: "\<And>j. j < length vs \<Longrightarrow>
      \<not> v_deleted (vs ! j) \<and> v_edges (vs ! j) = [] \<and> quadric (vs ! j) = None"
    using O by (auto simp: others_inv_def)
  have Of: "\<forall>f \<in> set fs. \<not> f_deleted f \<and> normal f \<noteq> None"
    using O by (auto simp: others_inv_def)
  have O': "others_inv vs5 (fs @ [fc])"
    using Of On fc del oth len unfolding others_inv_def
    by (auto simp: in_set_conv_nth)
  have M1: "\<forall>j < length vs5. \<forall>f \<in> set (v_faces (vs5 ! j)). f < length (fs @ [fc])"
  proof (intro allI impI ballI)
    fix j f assume "j < length vs5" and f: "f \<in> set (v_faces (vs5 ! j))"
    with len have j: "j < length vs" by simp
    from M j have "\<forall>g \<in> set (v_faces (vs ! j)). g < length fs"
      by (auto simp: mesh_inv_def)
    with f fcs [OF j] show "f < length (fs @ [fc])" by (auto split: if_splits)
  qed
  have M2: "\<forall>fi < length (fs @ [fc]). face_ok vs5 fi ((fs @ [fc]) ! fi)"
  proof (intro allI impI)
    fix fi assume "fi < length (fs @ [fc])"
    then consider (old) "fi < length fs" | (new) "fi = length fs" by force
    then show "face_ok vs5 fi ((fs @ [fc]) ! fi)"
    proof cases
      case old
      from M old have ok: "face_ok vs fi (fs ! fi)" by (simp add: mesh_inv_def)
      obtain a b c where abc: "f_vertices (fs ! fi) = (a, b, c)" by (cases "f_vertices (fs ! fi)")
      from ok abc have rg: "a < length vs" "b < length vs" "c < length vs"
        by (auto simp: face_ok_def)
      from ok abc show ?thesis
        using old len del [OF rg(1)] del [OF rg(2)] del [OF rg(3)]
          fcs [OF rg(1)] fcs [OF rg(2)] fcs [OF rg(3)]
        by (auto simp: face_ok_def vlive_def nth_append)
    next
      case new
      show ?thesis
        using new fc r d len nd [OF r(1)] nd [OF r(2)] nd [OF r(3)]
          del [OF r(1)] del [OF r(2)] del [OF r(3)] fcs [OF r(1)] fcs [OF r(2)] fcs [OF r(3)]
        by (auto simp: face_ok_def vlive_def)
    qed
  qed
  from M1 M2 have "mesh_inv vs5 (fs @ [fc])" by (simp add: mesh_inv_def)
  with K' O' show ?thesis by (simp add: ext_inv_alt)
qed

lemma ext_vs_refl: "ext_vs vs vs"
  by (simp add: ext_vs_def)

lemma ext_vs_trans: "ext_vs a b \<Longrightarrow> ext_vs b c \<Longrightarrow> ext_vs a c"
  by (auto simp: ext_vs_def)

lemma face_keys_ext:
  assumes "mesh_inv vs fs" "ext_vs vs vs'"
  shows "map (face_keys vs') fs = map (face_keys vs) fs"
proof (rule nth_equalityI)
  show "length (map (face_keys vs') fs) = length (map (face_keys vs) fs)" by simp
next
  fix i assume "i < length (map (face_keys vs') fs)"
  then have i: "i < length fs" by simp
  with assms(1) have "face_ok vs i (fs ! i)" by (simp add: mesh_inv_def)
  then have "face_keys vs' (fs ! i) = face_keys vs (fs ! i)"
    using assms(2) by (auto simp: face_ok_def face_keys_def ext_vs_def split: prod.splits)
  with i show "map (face_keys vs') fs ! i = map (face_keys vs) fs ! i" by simp
qed

lemma getVertexIndex_ext_vs:
  assumes K: "kinv vs vm" and g: "getVertexIndex (vs, vm) x y z = (i, vs', vm')"
  shows "ext_vs vs vs'" and "key_set vs' = insert (vkey (Vector3 x y z)) (key_set vs)"
proof -
  show "ext_vs vs vs'"
    using getVertexIndex_prefix [OF g] by (simp add: ext_vs_def)
  let ?k = "vkey (Vector3 x y z)"
  from getVertexIndex_cases [OF g] consider
    (old) "vm ?k = Some i" "vs' = vs"
    | (new) "vs' = vs @ [newVertex x y z]"
    by auto
  then show "key_set vs' = insert ?k (key_set vs)"
  proof cases
    case old
    from K old(1) have "i < length vs \<and> vkey (position (vs ! i)) = ?k"
      unfolding kinv_def by blast
    then have "?k \<in> key_set vs" unfolding key_set_def by (metis image_eqI nth_mem)
    with old show ?thesis by auto
  next
    case new
    then show ?thesis by (auto simp: key_set_def newVertex_def)
  qed
qed

lemma key_set_same_positions:
  assumes "length vs' = length vs" "\<forall>j < length vs. position (vs' ! j) = position (vs ! j)"
  shows "key_set vs' = key_set vs"
proof -
  have "map (\<lambda>v. vkey (position v)) vs' = map (\<lambda>v. vkey (position v)) vs"
    using assms by (intro nth_equalityI) auto
  then have "set (map (\<lambda>v. vkey (position v)) vs') = set (map (\<lambda>v. vkey (position v)) vs)"
    by simp
  then show ?thesis by (simp add: key_set_def)
qed

lemma computeFaceNormal_geom:
  assumes "f_vertices f = (i0, i1, i2)" "i0 < length vs" "i1 < length vs" "i2 < length vs"
    and "computeFaceNormal vs f = Some fc"
  shows "face_geom vs fc"
  using assms by (auto simp: computeFaceNormal_def nth_opt_def Let_def face_geom_def faceCross_def)

lemma faceCross_ext:
  assumes "f_vertices f = (a, b, c)" "a < length vs" "b < length vs" "c < length vs"
    and "ext_vs vs vs'"
  shows "faceCross vs' f = faceCross vs f"
  using assms by (simp add: faceCross_def ext_vs_def)

lemma face_geom_ext:
  assumes "f_vertices f = (a, b, c)" "a < length vs" "b < length vs" "c < length vs"
    and "ext_vs vs vs'" and "face_geom vs f"
  shows "face_geom vs' f"
  using assms(6) unfolding face_geom_def faceCross_ext [OF assms(1-5)] .

lemma extractLoop_correct:
  assumes "length ps mod 9 = 0" "ext_inv (vs, vm, fs)"
  shows "\<exists>vs' vm' fs'. extractLoop ps (vs, vm, fs) = Some (vs', vm', fs') \<and>
           ext_inv (vs', vm', fs') \<and> ext_vs vs vs' \<and>
           map (face_keys vs') fs' =
             map (face_keys vs) fs @ filter distinct3 (map keys3 (triangles ps)) \<and>
           key_set vs' = key_set vs \<union> tri_keys ps \<and>
           (\<forall>f \<in> set fs'. f \<in> set fs \<or> face_geom vs' f)"
  using assms
proof (induction ps arbitrary: vs vm fs rule: triangles.induct)
  case (1 x0 y0 z0 x1 y1 z1 x2 y2 z2 rest)
  let ?p = "Vector3 x0 y0 z0" and ?q = "Vector3 x1 y1 z1" and ?r = "Vector3 x2 y2 z2"
  have rest: "length rest mod 9 = 0" using "1.prems"(1) by simp
  obtain i0 vs0 vm0 where g0: "getVertexIndex (vs, vm) x0 y0 z0 = (i0, vs0, vm0)"
    by (metis prod_cases3)
  obtain i1 vs1 vm1 where g1: "getVertexIndex (vs0, vm0) x1 y1 z1 = (i1, vs1, vm1)"
    by (metis prod_cases3)
  obtain i2 vs2 vm2 where g2: "getVertexIndex (vs1, vm1) x2 y2 z2 = (i2, vs2, vm2)"
    by (metis prod_cases3)
  have E: "ext_inv (vs, vm, fs)" by fact
  have E0: "ext_inv (vs0, vm0, fs)" by (rule getVertexIndex_ext [OF E g0])
  have E1: "ext_inv (vs1, vm1, fs)" by (rule getVertexIndex_ext [OF E0 g1])
  have E2: "ext_inv (vs2, vm2, fs)" by (rule getVertexIndex_ext [OF E1 g2])
  from E E0 E1 E2 have K: "kinv vs vm" "kinv vs0 vm0" "kinv vs1 vm1" "kinv vs2 vm2"
    by (simp_all add: ext_inv_alt)
  from E E2 have M: "mesh_inv vs fs" "mesh_inv vs2 fs" by (simp_all add: ext_inv_alt)
  have x0: "ext_vs vs vs0" and x1: "ext_vs vs0 vs1" and x2: "ext_vs vs1 vs2"
    using getVertexIndex_ext_vs(1) [OF K(1) g0] getVertexIndex_ext_vs(1) [OF K(2) g1]
      getVertexIndex_ext_vs(1) [OF K(3) g2] by auto
  have x02: "ext_vs vs vs2" using x0 x1 x2 ext_vs_trans by blast
  have ks: "key_set vs2 = key_set vs \<union> {vkey ?p, vkey ?q, vkey ?r}"
    using getVertexIndex_ext_vs(2) [OF K(1) g0] getVertexIndex_ext_vs(2) [OF K(2) g1]
      getVertexIndex_ext_vs(2) [OF K(3) g2] by auto
  have r0: "i0 < length vs0" "vkey (position (vs0 ! i0)) = vkey ?p"
    using getVertexIndex_kinv(2,3) [OF K(1) g0] by auto
  have r1: "i1 < length vs1" "vkey (position (vs1 ! i1)) = vkey ?q"
    using getVertexIndex_kinv(2,3) [OF K(2) g1] by auto
  have r2: "i2 < length vs2" "vkey (position (vs2 ! i2)) = vkey ?r"
    using getVertexIndex_kinv(2,3) [OF K(3) g2] by auto
  have rr: "i0 < length vs2" "i1 < length vs2" "i2 < length vs2"
    using r0 r1 r2 x1 x2 by (auto simp: ext_vs_def)
  have kk: "vkey (position (vs2 ! i0)) = vkey ?p" "vkey (position (vs2 ! i1)) = vkey ?q"
    "vkey (position (vs2 ! i2)) = vkey ?r"
    using r0 r1 r2 x1 x2 by (auto simp: ext_vs_def)
  have eqs: "i0 = i1 \<longleftrightarrow> vkey ?p = vkey ?q" "i1 = i2 \<longleftrightarrow> vkey ?q = vkey ?r"
    "i2 = i0 \<longleftrightarrow> vkey ?r = vkey ?p"
    using kinv_index_eq [OF K(4) rr(1) rr(2)] kinv_index_eq [OF K(4) rr(2) rr(3)]
      kinv_index_eq [OF K(4) rr(3) rr(1)] kk by auto
  have tk: "tri_keys (x0 # y0 # z0 # x1 # y1 # z1 # x2 # y2 # z2 # rest) =
      {vkey ?p, vkey ?q, vkey ?r} \<union> tri_keys rest"
    by (simp add: tri_keys_def)
  show ?case
  proof (cases "i0 = i1 \<or> i1 = i2 \<or> i2 = i0")
    case True
    from "1.IH" [OF rest E2] obtain vs' vm' fs' where
      res: "extractLoop rest (vs2, vm2, fs) = Some (vs', vm', fs')" "ext_inv (vs', vm', fs')"
        "ext_vs vs2 vs'"
        "map (face_keys vs') fs' = map (face_keys vs2) fs @ filter distinct3 (map keys3 (triangles rest))"
        "key_set vs' = key_set vs2 \<union> tri_keys rest"
        "\<forall>f \<in> set fs'. f \<in> set fs \<or> face_geom vs' f"
      by blast
    have "extractLoop (x0 # y0 # z0 # x1 # y1 # z1 # x2 # y2 # z2 # rest) (vs, vm, fs) =
        Some (vs', vm', fs')"
      using g0 g1 g2 True res(1) by simp
    moreover have "ext_vs vs vs'" using x02 res(3) ext_vs_trans by blast
    moreover have "\<not> distinct3 (keys3 (?p, ?q, ?r))"
      using True eqs by (auto simp: distinct3_def keys3_def)
    then have "map (face_keys vs') fs' = map (face_keys vs) fs @
        filter distinct3 (map keys3 (triangles (x0 # y0 # z0 # x1 # y1 # z1 # x2 # y2 # z2 # rest)))"
      using res(4) face_keys_ext [OF M(1) x02] by simp
    moreover have "key_set vs' =
        key_set vs \<union> tri_keys (x0 # y0 # z0 # x1 # y1 # z1 # x2 # y2 # z2 # rest)"
      using res(5) ks tk by auto
    ultimately show ?thesis using res(2,6) by blast
  next
    case False
    then have d: "i0 \<noteq> i1" "i1 \<noteq> i2" "i2 \<noteq> i0" by auto
    let ?f0 = "\<lparr>f_vertices = (i0, i1, i2), f_deleted = False, normal = None, area = 0\<rparr>"
    from computeFaceNormal_Some [of ?f0 i0 i1 i2 vs2] rr obtain fc where
      fc: "computeFaceNormal vs2 ?f0 = Some fc" "f_vertices fc = (i0, i1, i2)" "\<not> f_deleted fc"
        "normal fc \<noteq> None"
      by auto
    from push3_char [OF rr d, of "length fs"] obtain vs5 where
      vs5: "(upd_at vs2 i0 (pushFace (length fs)) \<bind> (\<lambda>vs3. upd_at vs3 i1 (pushFace (length fs)) \<bind>
            (\<lambda>vs4. upd_at vs4 i2 (pushFace (length fs))))) = Some vs5"
        "length vs5 = length vs2"
        "\<forall>j < length vs2. vs5 ! j =
             (if j = i0 \<or> j = i1 \<or> j = i2
              then (vs2 ! j)\<lparr>v_faces := v_faces (vs2 ! j) @ [length fs]\<rparr> else vs2 ! j)"
      by blast
    have E5: "ext_inv (vs5, vm2, fs @ [fc])"
      by (rule push_face_ext [OF E2 rr d fc(2,3,4) vs5(2,3)])
    have pos5: "\<forall>j < length vs2. position (vs5 ! j) = position (vs2 ! j)"
      using vs5(3) by auto
    have x5: "ext_vs vs2 vs5" using vs5(2) pos5 by (simp add: ext_vs_def)
    from "1.IH" [OF rest E5] obtain vs' vm' fs' where
      res: "extractLoop rest (vs5, vm2, fs @ [fc]) = Some (vs', vm', fs')" "ext_inv (vs', vm', fs')"
        "ext_vs vs5 vs'"
        "map (face_keys vs') fs' =
           map (face_keys vs5) (fs @ [fc]) @ filter distinct3 (map keys3 (triangles rest))"
        "key_set vs' = key_set vs5 \<union> tri_keys rest"
        "\<forall>f \<in> set fs'. f \<in> set (fs @ [fc]) \<or> face_geom vs' f"
      by blast
    have gm2: "face_geom vs2 fc"
      by (rule computeFaceNormal_geom [OF _ rr fc(1)]) simp
    have "ext_vs vs2 vs'" using x5 res(3) by (rule ext_vs_trans)
    then have gfc: "face_geom vs' fc" using gm2 by (rule face_geom_ext [OF fc(2) rr])
    have geom: "\<forall>f \<in> set fs'. f \<in> set fs \<or> face_geom vs' f"
      using res(6) gfc by auto
    have "extractLoop (x0 # y0 # z0 # x1 # y1 # z1 # x2 # y2 # z2 # rest) (vs, vm, fs) =
        Some (vs', vm', fs')"
      using g0 g1 g2 False fc(1) vs5(1) res(1) by (simp add: Let_def)
    moreover have "ext_vs vs vs'" using x02 x5 res(3) ext_vs_trans by blast
    moreover have "distinct3 (keys3 (?p, ?q, ?r))"
      using d eqs by (auto simp: distinct3_def keys3_def)
    moreover have "face_keys vs5 fc = keys3 (?p, ?q, ?r)"
      using fc(2) kk rr pos5 by (simp add: face_keys_def keys3_def)
    moreover have "map (face_keys vs5) fs = map (face_keys vs) fs"
      using face_keys_ext [OF M(2) x5] face_keys_ext [OF M(1) x02] by simp
    ultimately have "extractLoop (x0 # y0 # z0 # x1 # y1 # z1 # x2 # y2 # z2 # rest) (vs, vm, fs) =
        Some (vs', vm', fs') \<and> ext_vs vs vs' \<and> map (face_keys vs') fs' = map (face_keys vs) fs @
        filter distinct3 (map keys3 (triangles (x0 # y0 # z0 # x1 # y1 # z1 # x2 # y2 # z2 # rest)))"
      using res(4) by simp
    moreover have "key_set vs' =
        key_set vs \<union> tri_keys (x0 # y0 # z0 # x1 # y1 # z1 # x2 # y2 # z2 # rest)"
      using res(5) ks tk key_set_same_positions [OF vs5(2) pos5] by auto
    ultimately show ?thesis using res(2) geom by blast
  qed
qed (simp_all add: ext_vs_refl tri_keys_def)

lemma kinv_distinct:
  assumes "kinv vs vm"
  shows "distinct (map (\<lambda>v. vkey (position v)) vs)"
proof -
  have "\<And>i j. i < length vs \<Longrightarrow> j < length vs \<Longrightarrow> i \<noteq> j \<Longrightarrow>
      vkey (position (vs ! i)) \<noteq> vkey (position (vs ! j))"
    using kinv_index_eq [OF assms] by blast
  then show ?thesis by (simp add: distinct_conv_nth)
qed

lemma extractMeshData_correct:
  assumes "length ps mod 9 = 0"
  shows "\<exists>st. extractMeshData ps = Some st \<and> edges st = [] \<and>
           mesh_inv (vertices st) (faces st) \<and> others_inv (vertices st) (faces st) \<and>
           distinct (map (\<lambda>v. vkey (position v)) (vertices st)) \<and>
           key_set (vertices st) = tri_keys ps \<and>
           map (face_keys (vertices st)) (faces st) = filter distinct3 (map keys3 (triangles ps))"
proof -
  have E: "ext_inv ([], Map.empty, [])"
    by (simp add: ext_inv_def mesh_inv_def)
  have ks: "key_set [] = {}" by (simp add: key_set_def)
  from extractLoop_correct [OF assms E] obtain vs vm fs where
    r: "extractLoop ps ([], Map.empty, []) = Some (vs, vm, fs)" "ext_inv (vs, vm, fs)"
      "map (face_keys vs) fs = map (face_keys []) [] @ filter distinct3 (map keys3 (triangles ps))"
      "key_set vs = key_set [] \<union> tri_keys ps"
    by blast
  from r(2) have "kinv vs vm" "mesh_inv vs fs" "others_inv vs fs" by (simp_all add: ext_inv_alt)
  with r(1,3,4) ks kinv_distinct [of vs vm] show ?thesis
    by (simp add: extractMeshData_def)
qed


lemma addPair_total:
  assumes I: "be_inv vs0 nf s" and r: "a < length vs0" "b < length vs0" "a \<noteq> b" "f < nf"
  shows "\<exists>s'. addPair f (a, b) s = Some s' \<and> be_inv vs0 nf s'"
proof -
  obtain vs es em where s: "s = (vs, es, em)" by (cases s)
  define key where "key = (if a < b then (a, b) else (b, a))"
  from I s have len: "length vs = length vs0"
    and fr: "\<forall>j < length vs0.
           position (vs ! j) = position (vs0 ! j) \<and> v_faces (vs ! j) = v_faces (vs0 ! j) \<and>
           v_deleted (vs ! j) = v_deleted (vs0 ! j) \<and> quadric (vs ! j) = quadric (vs0 ! j)"
    and emr: "\<forall>k i. em k = Some i \<longrightarrow> i < length es"
    and ver: "\<forall>j < length vs0. \<forall>e \<in> set (v_edges (vs ! j)). e < length es"
    and eok: "\<forall>i < length es. edge_ok (length vs0) nf (es ! i) \<and> \<not> e_deleted (es ! i)"
    by (simp_all add: be_inv_def)
  show ?thesis
  proof (cases "em key")
    case (Some ei)
    with emr have ei: "ei < length es" by blast
    let ?es = "es[ei := (es ! ei)\<lparr>e_faces := e_faces (es ! ei) @ [f]\<rparr>]"
    have res: "addPair f (a, b) s = Some (vs, ?es, em)"
      using Some ei s by (simp add: addPair_def key_def upd_at_def pushEdgeFace_def)
    have "\<forall>i < length ?es. edge_ok (length vs0) nf (?es ! i) \<and> \<not> e_deleted (?es ! i)"
    proof (intro allI impI)
      fix i assume "i < length ?es"
      then have i: "i < length es" by simp
      with eok have "edge_ok (length vs0) nf (es ! i) \<and> \<not> e_deleted (es ! i)" by blast
      with i ei r(4) show "edge_ok (length vs0) nf (?es ! i) \<and> \<not> e_deleted (?es ! i)"
        by (cases "i = ei") (auto simp: edge_ok_def)
    qed
    with len fr emr ver have "be_inv vs0 nf (vs, ?es, em)" by (simp add: be_inv_def)
    with res show ?thesis by blast
  next
    case None
    let ?n = "length es"
    let ?va = "(vs ! a)\<lparr>v_edges := v_edges (vs ! a) @ [?n]\<rparr>"
    let ?vs1 = "vs[a := ?va]"
    let ?vb = "(?vs1 ! b)\<lparr>v_edges := v_edges (?vs1 ! b) @ [?n]\<rparr>"
    let ?vs2 = "?vs1[b := ?vb]"
    let ?e = "(newEdge a b)\<lparr>e_faces := e_faces (newEdge a b) @ [f]\<rparr>"
    let ?es = "es @ [?e]"
    let ?em = "em(key \<mapsto> ?n)"
    have res: "addPair f (a, b) s = Some (?vs2, ?es, ?em)"
      using None s r len by (simp add: addPair_def key_def upd_at_def pushEdgeFace_def pushEdge_def)
    have ch: "\<And>j. j < length vs0 \<Longrightarrow> ?vs2 ! j =
        (if j = a \<or> j = b then (vs ! j)\<lparr>v_edges := v_edges (vs ! j) @ [?n]\<rparr> else vs ! j)"
      using r len by (auto simp: nth_list_update)
    have 1: "length ?vs2 = length vs0" using len by simp
    have 2: "\<forall>j < length vs0.
           position (?vs2 ! j) = position (vs0 ! j) \<and> v_faces (?vs2 ! j) = v_faces (vs0 ! j) \<and>
           v_deleted (?vs2 ! j) = v_deleted (vs0 ! j) \<and> quadric (?vs2 ! j) = quadric (vs0 ! j)"
      using fr ch by simp
    have 3: "\<forall>k i. ?em k = Some i \<longrightarrow> i < length ?es"
      using emr by (auto simp: less_Suc_eq)
    have 4: "\<forall>j < length vs0. \<forall>e \<in> set (v_edges (?vs2 ! j)). e < length ?es"
    proof (intro allI impI ballI)
      fix j e assume j: "j < length vs0" and e: "e \<in> set (v_edges (?vs2 ! j))"
      from ver j have "\<forall>e \<in> set (v_edges (vs ! j)). e < length es" by blast
      with e show "e < length ?es" unfolding ch [OF j] by (auto split: if_splits simp: less_Suc_eq)
    qed
    have 5: "\<forall>i < length ?es. edge_ok (length vs0) nf (?es ! i) \<and> \<not> e_deleted (?es ! i)"
    proof (intro allI impI)
      fix i assume "i < length ?es"
      then consider "i < length es" | "i = length es" by force
      then show "edge_ok (length vs0) nf (?es ! i) \<and> \<not> e_deleted (?es ! i)"
      proof cases
        case 1
        with eok show ?thesis by (simp add: nth_append)
      next
        case 2
        with r show ?thesis by (auto simp: edge_ok_def newEdge_def min_def max_def)
      qed
    qed
    from 1 2 3 4 5 have "be_inv vs0 nf (?vs2, ?es, ?em)" unfolding be_inv_def by simp
    with res show ?thesis by blast
  qed
qed

lemma edgesOfFace_total:
  assumes I: "be_inv vs0 nf s" and f: "f < length fs" "length fs = nf"
    and ok: "face_ok vs0 f (fs ! f)"
  shows "\<exists>s'. edgesOfFace fs f s = Some s' \<and> be_inv vs0 nf s'"
proof (cases "f_deleted (fs ! f)")
  case True
  with I f show ?thesis by (simp add: edgesOfFace_def nth_opt_def)
next
  case False
  obtain a b c where abc: "f_vertices (fs ! f) = (a, b, c)" by (cases "f_vertices (fs ! f)")
  from ok abc False have r: "a < length vs0" "b < length vs0" "c < length vs0"
    "a \<noteq> b" "b \<noteq> c" "c \<noteq> a"
    by (auto simp: face_ok_def)
  have fn: "f < nf" using f by simp
  from addPair_total [OF I r(1,2,4) fn] obtain s1 where
    s1: "addPair f (a, b) s = Some s1" "be_inv vs0 nf s1" by blast
  from addPair_total [OF s1(2) r(2,3,5) fn] obtain s2 where
    s2: "addPair f (b, c) s1 = Some s2" "be_inv vs0 nf s2" by blast
  from addPair_total [OF s2(2) r(3,1,6) fn] obtain s3 where
    s3: "addPair f (c, a) s2 = Some s3" "be_inv vs0 nf s3" by blast
  from s1 s2 s3 False abc f show ?thesis by (simp add: edgesOfFace_def nth_opt_def)
qed

lemma same_core_refl: "same_core vs vs"
  by (simp add: same_core_def)

lemma same_core_trans: "same_core a b \<Longrightarrow> same_core b c \<Longrightarrow> same_core a c"
  by (simp add: same_core_def)

lemma buildEdges_total:
  assumes M: "mesh_inv (vertices st) (faces st)"
    and O: "\<forall>v \<in> set (vertices st). v_edges v = []"
  shows "\<exists>st'. buildEdges st = Some st' \<and> faces st' = faces st \<and>
           same_core (vertices st) (vertices st') \<and>
           (\<forall>j < length (vertices st). quadric (vertices st' ! j) = quadric (vertices st ! j)) \<and>
           (\<forall>j < length (vertices st). \<forall>e \<in> set (v_edges (vertices st' ! j)). e < length (edges st')) \<and>
           (\<forall>i < length (edges st').
              edge_ok (length (vertices st)) (length (faces st)) (edges st' ! i) \<and>
              \<not> e_deleted (edges st' ! i))"
proof -
  let ?vs0 = "vertices st" and ?fs = "faces st"
  have I0: "be_inv ?vs0 (length ?fs) (?vs0, [], Map.empty)"
    using O by (simp add: be_inv_def)
  have step: "\<And>x s. x \<in> set [0..<length ?fs] \<Longrightarrow> be_inv ?vs0 (length ?fs) s \<Longrightarrow>
      \<exists>s'. edgesOfFace ?fs x s = Some s' \<and> be_inv ?vs0 (length ?fs) s'"
  proof -
    fix x s assume x: "x \<in> set [0..<length ?fs]" and I: "be_inv ?vs0 (length ?fs) s"
    from x have xl: "x < length ?fs" by simp
    with M have "face_ok ?vs0 x (?fs ! x)" by (simp add: mesh_inv_def)
    from edgesOfFace_total [OF I xl refl this]
    show "\<exists>s'. edgesOfFace ?fs x s = Some s' \<and> be_inv ?vs0 (length ?fs) s'" .
  qed
  from foldM_total [where I = "be_inv ?vs0 (length ?fs)" and f = "edgesOfFace ?fs"
      and xs = "[0..<length ?fs]", OF I0 step]
  obtain s' where s': "foldM (edgesOfFace ?fs) [0..<length ?fs] (?vs0, [], Map.empty) = Some s'"
    "be_inv ?vs0 (length ?fs) s'" by blast
  obtain vs es em where v: "s' = (vs, es, em)" by (cases s')
  have "buildEdges st = Some (st\<lparr>vertices := vs, edges := es\<rparr>)"
    using s'(1) v by (simp add: buildEdges_def)
  moreover from s'(2) v have "same_core ?vs0 vs"
    by (simp add: be_inv_def same_core_def)
  ultimately show ?thesis using s'(2) v by (simp add: be_inv_def)
qed

lemma addQuadric_step:
  assumes I: "cq_inv vs0 vs" and i: "i < length vs0"
  shows "\<exists>vs'. upd_at vs i (addQuadric q) = Some vs' \<and> cq_inv vs0 vs'"
proof -
  from I i obtain p where p: "quadric (vs ! i) = Some p" by (auto simp: cq_inv_def)
  from I have len: "length vs = length vs0" by (simp add: cq_inv_def)
  let ?vs = "vs[i := (vs ! i)\<lparr>quadric := Some (q_add p q)\<rparr>]"
  have "upd_at vs i (addQuadric q) = Some ?vs"
    using p i len by (simp add: upd_at_def addQuadric_def)
  moreover have "cq_inv vs0 ?vs"
    unfolding cq_inv_def
  proof (intro conjI allI impI)
    show "length ?vs = length vs0" using len by simp
  next
    fix j assume j: "j < length vs0"
    with I have *: "position (vs ! j) = position (vs0 ! j) \<and> v_faces (vs ! j) = v_faces (vs0 ! j) \<and>
        v_deleted (vs ! j) = v_deleted (vs0 ! j) \<and> v_edges (vs ! j) = v_edges (vs0 ! j) \<and>
        quadric (vs ! j) \<noteq> None" by (simp add: cq_inv_def)
    show "position (?vs ! j) = position (vs0 ! j)" using * j len by (cases "j = i") simp_all
    show "v_faces (?vs ! j) = v_faces (vs0 ! j)" using * j len by (cases "j = i") simp_all
    show "v_deleted (?vs ! j) = v_deleted (vs0 ! j)" using * j len by (cases "j = i") simp_all
    show "v_edges (?vs ! j) = v_edges (vs0 ! j)" using * j len by (cases "j = i") simp_all
    show "quadric (?vs ! j) \<noteq> None" using * j len by (cases "j = i") simp_all
  qed
  ultimately show ?thesis by blast
qed

lemma quadricOfFace_total:
  assumes I: "cq_inv vs0 vs" and r: "f_vertices fc = (a, b, c)"
    "a < length vs0" "b < length vs0" "c < length vs0"
  shows "\<exists>vs'. quadricOfFace fc vs = Some vs' \<and> cq_inv vs0 vs'"
proof (cases "f_deleted fc \<or> normal fc = None")
  case True
  with I show ?thesis by (auto simp: quadricOfFace_def)
next
  case False
  then obtain n where n: "normal fc = Some n" "\<not> f_deleted fc" by auto
  from I have len: "length vs = length vs0" by (simp add: cq_inv_def)
  define q where "q = faceQuadric n (position (vs ! a)) (area fc)"
  from addQuadric_step [OF I r(2)] obtain vs1 where
    1: "upd_at vs a (addQuadric q) = Some vs1" "cq_inv vs0 vs1" by blast
  from addQuadric_step [OF 1(2) r(3)] obtain vs2 where
    2: "upd_at vs1 b (addQuadric q) = Some vs2" "cq_inv vs0 vs2" by blast
  from addQuadric_step [OF 2(2) r(4)] obtain vs3 where
    3: "upd_at vs2 c (addQuadric q) = Some vs3" "cq_inv vs0 vs3" by blast
  have "quadricOfFace fc vs = Some vs3"
    using n r len 1 2 3 by (simp add: quadricOfFace_def nth_opt_def q_def Let_def)
  with 3 show ?thesis by blast
qed

lemma computeQuadrics_total:
  assumes M: "mesh_inv (vertices st) (faces st)"
  shows "\<exists>st'. computeQuadrics st = Some st' \<and> faces st' = faces st \<and> edges st' = edges st \<and>
           cq_inv (vertices st) (vertices st')"
proof -
  let ?vs0 = "vertices st"
  let ?init = "map (\<lambda>v. v\<lparr>quadric := Some newQuadric\<rparr>) ?vs0"
  have I0: "cq_inv ?vs0 ?init" by (simp add: cq_inv_def)
  have step: "\<And>x s. x \<in> set (faces st) \<Longrightarrow> cq_inv ?vs0 s \<Longrightarrow>
      \<exists>s'. quadricOfFace x s = Some s' \<and> cq_inv ?vs0 s'"
  proof -
    fix x s assume x: "x \<in> set (faces st)" and I: "cq_inv ?vs0 s"
    from x obtain fi where fi: "fi < length (faces st)" "x = faces st ! fi"
      by (auto simp: in_set_conv_nth)
    with M have ok: "face_ok ?vs0 fi x" by (simp add: mesh_inv_def)
    obtain a b c where abc: "f_vertices x = (a, b, c)" by (cases "f_vertices x")
    with ok have "a < length ?vs0" "b < length ?vs0" "c < length ?vs0"
      by (auto simp: face_ok_def)
    from quadricOfFace_total [OF I abc this]
    show "\<exists>s'. quadricOfFace x s = Some s' \<and> cq_inv ?vs0 s'" .
  qed
  from foldM_total [where I = "cq_inv ?vs0" and f = quadricOfFace and xs = "faces st",
      OF I0 step]
  obtain vs where vs: "foldM quadricOfFace (faces st) ?init = Some vs" "cq_inv ?vs0 vs" by blast
  then have "computeQuadrics st = Some (st\<lparr>vertices := vs\<rparr>)" by (simp add: computeQuadrics_def)
  with vs(2) show ?thesis by simp
qed

lemma edgeCost_costed:
  assumes "e_v0 e < length vs" "e_v1 e < length vs"
    "quadric (vs ! e_v0 e) \<noteq> None" "quadric (vs ! e_v1 e) \<noteq> None"
  shows "edgeCost vs e = Some (costed vs e)"
  using assms by (auto simp: edgeCost_def costed_def nth_opt_def Let_def)

lemma mapM_map:
  assumes "\<And>x. x \<in> set xs \<Longrightarrow> f x = Some (g x)"
  shows "mapM f xs = Some (map g xs)"
  using assms by (induction xs) simp_all

lemma computeEdgeCosts_costed:
  assumes "\<forall>i < length (edges st). e_v0 (edges st ! i) < length (vertices st) \<and>
             e_v1 (edges st ! i) < length (vertices st)"
    and "\<forall>j < length (vertices st). quadric (vertices st ! j) \<noteq> None"
  shows "computeEdgeCosts st = Some (st\<lparr>edges := map (costed (vertices st)) (edges st)\<rparr>)"
proof -
  have "\<And>x. x \<in> set (edges st) \<Longrightarrow> edgeCost (vertices st) x = Some (costed (vertices st) x)"
  proof -
    fix x assume "x \<in> set (edges st)"
    then obtain i where i: "i < length (edges st)" "x = edges st ! i"
      by (auto simp: in_set_conv_nth)
    with assms show "edgeCost (vertices st) x = Some (costed (vertices st) x)"
      by (intro edgeCost_costed) auto
  qed
  then have "mapM (edgeCost (vertices st)) (edges st) = Some (map (costed (vertices st)) (edges st))"
    by (rule mapM_map)
  then show ?thesis by (simp add: computeEdgeCosts_def)
qed

lemma someLive_eq:
  assumes "\<forall>f \<in> set fl. f < length fs"
  shows "someLive fs fl = Some (\<exists>f \<in> set fl. \<not> f_deleted (fs ! f))"
  using assms by (induction fl) (auto simp: nth_opt_def)

lemma mapVertex_eq:
  assumes "\<forall>f \<in> set (v_faces v). f < length fs"
  shows "mapVertex fs (i, v) (m, k) = Some (if keep fs v then (m(i \<mapsto> k), k + 1) else (m, k))"
  using someLive_eq [OF assms] by (auto simp: mapVertex_def keep_def)

lemma mapVertex_fold:
  assumes "\<forall>v \<in> set xs. \<forall>f \<in> set (v_faces v). f < length fs" and "vm_inv n (m, k)"
  shows "\<exists>m' k'. foldM (mapVertex fs) (List.enumerate n xs) (m, k) = Some (m', k') \<and>
           vm_inv (n + length xs) (m', k') \<and>
           (\<forall>j < length xs. (m' (n + j) \<noteq> None) = keep fs (xs ! j))"
  using assms
proof (induction xs arbitrary: n m k)
  case Nil
  then show ?case by simp
next
  case (Cons v xs)
  let ?s = "if keep fs v then (m(n \<mapsto> k), k + 1) else (m, k)"
  have st: "mapVertex fs (n, v) (m, k) = Some ?s"
    using Cons.prems(1) by (intro mapVertex_eq) simp
  obtain m1 k1 where s1: "?s = (m1, k1)" by (cases ?s)
  have I1: "vm_inv (Suc n) (m1, k1)"
  proof (cases "keep fs v")
    case True
    with s1 have e: "m1 = m(n \<mapsto> k)" "k1 = k + 1" by auto
    from Cons.prems(2) have a: "\<And>i j. m i = Some j \<Longrightarrow> i < n \<and> j < k"
      and b: "\<And>i i' j. m i = Some j \<Longrightarrow> m i' = Some j \<Longrightarrow> i = i'"
      by (auto simp: vm_inv_def)
    have A: "\<And>i j. (m(n \<mapsto> k)) i = Some j \<Longrightarrow> i < Suc n \<and> j < k + 1"
    proof -
      fix i j assume "(m(n \<mapsto> k)) i = Some j"
      then show "i < Suc n \<and> j < k + 1" using a by (cases "i = n") (auto simp: less_Suc_eq)
    qed
    have B: "\<And>i i' j. (m(n \<mapsto> k)) i = Some j \<Longrightarrow> (m(n \<mapsto> k)) i' = Some j \<Longrightarrow> i = i'"
    proof -
      fix i i' j assume "(m(n \<mapsto> k)) i = Some j" and "(m(n \<mapsto> k)) i' = Some j"
      then show "i = i'"
        using a b by (cases "i = n"; cases "i' = n") (auto simp: less_Suc_eq)
    qed
    show ?thesis
      unfolding vm_inv_def e prod.case using A B by blast
  next
    case False
    with s1 have e: "m1 = m" "k1 = k" by auto
    from Cons.prems(2) show ?thesis unfolding e vm_inv_def by (auto simp: less_Suc_eq)
  qed
  have r: "\<forall>v \<in> set xs. \<forall>f \<in> set (v_faces v). f < length fs" using Cons.prems(1) by simp
  from Cons.IH [OF r I1] obtain m' k' where
    res: "foldM (mapVertex fs) (List.enumerate (Suc n) xs) (m1, k1) = Some (m', k')"
      "vm_inv (Suc n + length xs) (m', k')"
      "\<forall>j < length xs. (m' (Suc n + j) \<noteq> None) = keep fs (xs ! j)"
    by blast
  have unch: "m' n = m1 n"
  proof -
    have "\<And>m' k'. foldM (mapVertex fs) (List.enumerate (Suc n) xs) (m1, k1) = Some (m', k') \<Longrightarrow> m' n = m1 n"
      using r
    proof (induction xs arbitrary: n m1 k1 rule: rev_induct)
      case Nil
      then show ?case by simp
    next
      case (snoc y ys)
      have en: "List.enumerate (Suc n) (ys @ [y]) = List.enumerate (Suc n) ys @ [(Suc n + length ys, y)]"
        by (simp add: enumerate_append_eq)
      from snoc.prems(1) obtain m2 k2 where
        a: "foldM (mapVertex fs) (List.enumerate (Suc n) ys) (m1, k1) = Some (m2, k2)"
        and b: "mapVertex fs (Suc n + length ys, y) (m2, k2) = Some (m', k')"
        unfolding en foldM_append by (auto split: option.splits)
      have "m2 n = m1 n" using snoc.IH [OF a] snoc.prems(2) by simp
      moreover have "mapVertex fs (Suc n + length ys, y) (m2, k2) =
          Some (if keep fs y then (m2(Suc n + length ys \<mapsto> k2), k2 + 1) else (m2, k2))"
        using snoc.prems(2) by (intro mapVertex_eq) simp
      with b have "m' n = m2 n" by (auto split: if_splits)
      ultimately show ?case by simp
    qed
    from this [OF res(1)] show ?thesis .
  qed
  have key: "(m' n \<noteq> None) = keep fs v"
  proof (cases "keep fs v")
    case True
    with s1 have "m1 n = Some k" by auto
    with unch True show ?thesis by simp
  next
    case False
    with s1 have "m1 = m" by auto
    moreover from Cons.prems(2) have "m n = None"
      by (auto simp: vm_inv_def) (metis less_irrefl not_Some_eq)
    ultimately show ?thesis using unch False by simp
  qed
  have "foldM (mapVertex fs) (List.enumerate n (v # xs)) (m, k) = Some (m', k')"
    using st s1 res(1) by simp
  moreover have "vm_inv (n + length (v # xs)) (m', k')" using res(2) by simp
  moreover have "\<forall>j < length (v # xs). (m' (n + j) \<noteq> None) = keep fs ((v # xs) ! j)"
  proof (intro allI impI)
    fix j assume j: "j < length (v # xs)"
    show "(m' (n + j) \<noteq> None) = keep fs ((v # xs) ! j)"
    proof (cases j)
      case 0
      with key show ?thesis by simp
    next
      case (Suc j')
      with j res(3) show ?thesis by simp
    qed
  qed
  ultimately show ?case by blast
qed

lemma foldM_append_acc:
  assumes "\<And>x acc. x \<in> set xs \<Longrightarrow> f x acc = Some (acc @ g x)"
  shows "foldM f xs acc = Some (acc @ concat (map g xs))"
  using assms by (induction xs arbitrary: acc) simp_all

lemma faceStream_alt:
  "faceStream vs fs = concat (map (\<lambda>f. if f_deleted f then [] else face_coords vs f) fs)"
  by (induction fs) (simp_all add: faceStream_def)

lemma length_faceStream:
  "length (faceStream vs fs) = 9 * length (filter (\<lambda>f. \<not> f_deleted f) fs)"
  by (induction fs) (auto simp: faceStream_def face_coords_def split: prod.splits)

lemma emitFace_eq:
  assumes M: "mesh_inv vs fs" and fi: "fi < length fs"
    and I: "vm_inv (length vs) (m, k)"
    and K: "\<forall>j < length vs. (m j \<noteq> None) = keep fs (vs ! j)"
  shows "emitFace vs m (fs ! fi) acc =
           Some (acc @ (if f_deleted (fs ! fi) then [] else face_coords vs (fs ! fi)))"
proof (cases "f_deleted (fs ! fi)")
  case True
  then show ?thesis by (simp add: emitFace_def)
next
  case False
  obtain a b c where abc: "f_vertices (fs ! fi) = (a, b, c)" by (cases "f_vertices (fs ! fi)")
  from M fi have "face_ok vs fi (fs ! fi)" by (simp add: mesh_inv_def)
  with abc False have r: "a < length vs" "b < length vs" "c < length vs"
    and d: "a \<noteq> b" "b \<noteq> c" "c \<noteq> a"
    and l: "vlive vs a fi" "vlive vs b fi" "vlive vs c fi"
    by (auto simp: face_ok_def)
  have kp: "\<And>x. x < length vs \<Longrightarrow> vlive vs x fi \<Longrightarrow> m x \<noteq> None"
  proof -
    fix x assume x: "x < length vs" "vlive vs x fi"
    with False have "keep fs (vs ! x)" by (auto simp: keep_def vlive_def)
    with K x(1) show "m x \<noteq> None" by blast
  qed
  from kp [OF r(1) l(1)] kp [OF r(2) l(2)] kp [OF r(3) l(3)]
  obtain na nb nc where n: "m a = Some na" "m b = Some nb" "m c = Some nc" by auto
  from I have inj: "\<And>i i' j. m i = Some j \<Longrightarrow> m i' = Some j \<Longrightarrow> i = i'"
    unfolding vm_inv_def prod.case by blast
  have ne: "na \<noteq> nb" "nb \<noteq> nc" "nc \<noteq> na"
    using inj n d by blast+
  show ?thesis
    using False abc n ne r
    by (simp add: emitFace_def face_coords_def nth_opt_def Let_def)
qed

lemma buildGeometry_stream:
  assumes M: "mesh_inv (vertices st) (faces st)"
  shows "buildGeometry st = Some (faceStream (vertices st) (faces st))"
proof -
  let ?vs = "vertices st" and ?fs = "faces st"
  have rg: "\<forall>v \<in> set ?vs. \<forall>f \<in> set (v_faces v). f < length ?fs"
  proof (intro ballI)
    fix v f assume "v \<in> set ?vs" and f: "f \<in> set (v_faces v)"
    then obtain i where "i < length ?vs" "v = ?vs ! i" by (auto simp: in_set_conv_nth)
    with M f show "f < length ?fs" by (simp add: mesh_inv_def)
  qed
  have I0: "vm_inv 0 (Map.empty, 0)" by (simp add: vm_inv_def)
  from mapVertex_fold [OF rg I0] obtain m k where
    mk: "foldM (mapVertex ?fs) (List.enumerate 0 ?vs) (Map.empty, 0) = Some (m, k)"
      "vm_inv (length ?vs) (m, k)"
      "\<forall>j < length ?vs. (m j \<noteq> None) = keep ?fs (?vs ! j)"
    by auto
  have "\<And>x acc. x \<in> set ?fs \<Longrightarrow> emitFace ?vs m x acc =
      Some (acc @ (if f_deleted x then [] else face_coords ?vs x))"
  proof -
    fix x acc assume "x \<in> set ?fs"
    then obtain fi where fi: "fi < length ?fs" "x = ?fs ! fi" by (auto simp: in_set_conv_nth)
    from emitFace_eq [OF M fi(1) mk(2,3)] fi(2)
    show "emitFace ?vs m x acc = Some (acc @ (if f_deleted x then [] else face_coords ?vs x))"
      by simp
  qed
  then have "foldM (emitFace ?vs m) ?fs [] =
      Some ([] @ concat (map (\<lambda>f. if f_deleted f then [] else face_coords ?vs f) ?fs))"
    by (rule foldM_append_acc)
  with mk(1) show ?thesis by (simp add: buildGeometry_def faceStream_alt)
qed

lemma mesh_inv_same_core:
  assumes "same_core vs vs'" "mesh_inv vs fs"
  shows "mesh_inv vs' fs"
proof -
  from assms(1) have len: "length vs' = length vs"
    and c: "\<And>j. j < length vs \<Longrightarrow> v_faces (vs' ! j) = v_faces (vs ! j) \<and>
        v_deleted (vs' ! j) = v_deleted (vs ! j)"
    by (simp_all add: same_core_def)
  have 1: "\<forall>i < length vs'. \<forall>f \<in> set (v_faces (vs' ! i)). f < length fs"
    using assms(2) len c by (simp add: mesh_inv_def)
  have 2: "\<forall>fi < length fs. face_ok vs' fi (fs ! fi)"
  proof (intro allI impI)
    fix fi assume "fi < length fs"
    with assms(2) have ok: "face_ok vs fi (fs ! fi)" by (simp add: mesh_inv_def)
    obtain a b c' where abc: "f_vertices (fs ! fi) = (a, b, c')" by (cases "f_vertices (fs ! fi)")
    from ok abc have r: "a < length vs" "b < length vs" "c' < length vs"
      by (auto simp: face_ok_def)
    from ok abc show "face_ok vs' fi (fs ! fi)"
      using len c [OF r(1)] c [OF r(2)] c [OF r(3)]
      by (simp add: face_ok_def vlive_def)
  qed
  from 1 2 show ?thesis by (simp add: mesh_inv_def)
qed

lemma faceStream_same_core:
  assumes "same_core vs vs'" "mesh_inv vs fs"
  shows "faceStream vs' fs = faceStream vs fs"
proof -
  have "\<And>x. x \<in> set fs \<Longrightarrow> face_coords vs' x = face_coords vs x"
  proof -
    fix x assume "x \<in> set fs"
    then obtain fi where fi: "fi < length fs" "x = fs ! fi" by (auto simp: in_set_conv_nth)
    with assms(2) have "face_ok vs fi x" by (simp add: mesh_inv_def)
    then show "face_coords vs' x = face_coords vs x"
      using assms(1) by (auto simp: face_ok_def face_coords_def same_core_def split: prod.splits)
  qed
  then have "map (face_coords vs') (filter (\<lambda>f. \<not> f_deleted f) fs) =
      map (face_coords vs) (filter (\<lambda>f. \<not> f_deleted f) fs)"
    by simp
  then show ?thesis unfolding faceStream_def by (rule arg_cong)
qed

lemma markDeleted_fold:
  assumes "\<forall>f \<in> set xs. f < length fs"
  shows "\<exists>fs'. foldM markDeleted xs fs = Some fs' \<and> length fs' = length fs \<and>
           (\<forall>i < length fs.
              f_vertices (fs' ! i) = f_vertices (fs ! i) \<and>
              f_deleted (fs' ! i) = (f_deleted (fs ! i) \<or> i \<in> set xs))"
  using assms
proof (induction xs arbitrary: fs)
  case Nil
  then show ?case by simp
next
  case (Cons x xs)
  let ?fs1 = "fs[x := (if \<not> f_deleted (fs ! x) then (fs ! x)\<lparr>f_deleted := True\<rparr> else fs ! x)]"
  have x: "x < length fs" using Cons.prems by simp
  have st: "markDeleted x fs = Some ?fs1" using x by (simp add: markDeleted_def upd_at_def)
  have r: "\<forall>f \<in> set xs. f < length ?fs1" using Cons.prems by simp
  from Cons.IH [OF r] obtain fs' where
    res: "foldM markDeleted xs ?fs1 = Some fs'" "length fs' = length ?fs1"
      "\<forall>i < length ?fs1. f_vertices (fs' ! i) = f_vertices (?fs1 ! i) \<and>
              f_deleted (fs' ! i) = (f_deleted (?fs1 ! i) \<or> i \<in> set xs)"
    by blast
  have "\<forall>i < length fs.
              f_vertices (fs' ! i) = f_vertices (fs ! i) \<and>
              f_deleted (fs' ! i) = (f_deleted (fs ! i) \<or> i \<in> set (x # xs))"
  proof (intro allI impI)
    fix i assume i: "i < length fs"
    with res(3) have *: "f_vertices (fs' ! i) = f_vertices (?fs1 ! i) \<and>
              f_deleted (fs' ! i) = (f_deleted (?fs1 ! i) \<or> i \<in> set xs)" by simp
    show "f_vertices (fs' ! i) = f_vertices (fs ! i) \<and>
              f_deleted (fs' ! i) = (f_deleted (fs ! i) \<or> i \<in> set (x # xs))"
      using * i x by (cases "i = x") auto
  qed
  with st res(1,2) show ?case by simp
qed

lemma replaceVertex_idem:
  "a \<noteq> b \<Longrightarrow> replaceVertex b a (replaceVertex b a t) = replaceVertex b a t"
  by (cases t) (simp add: replaceVertex_def)

lemma replaceVertex_range:
  "a < n \<Longrightarrow> tri_in_range n t \<Longrightarrow> tri_in_range n (replaceVertex b a t)"
  by (cases t) (simp add: replaceVertex_def tri_in_range_def)

lemma transferFace_step:
  assumes ab: "a < length vs1" "a \<noteq> b"
    and rg: "\<forall>i < length fs1. tri_in_range (length vs1) (f_vertices (fs1 ! i))"
    and x: "x < length fs1"
    and I: "tf_inv a b vs1 fs1 P s"
  shows "\<exists>s'. transferFace a b x s = Some s' \<and> tf_inv a b vs1 fs1 (insert x P) s'"
proof -
  obtain vs fs where s: "s = (vs, fs)" by (cases s)
  from I s have len: "length vs = length vs1" "length fs = length fs1"
    and V: "\<And>j. j < length vs1 \<Longrightarrow>
           position (vs ! j) = position (vs1 ! j) \<and> v_deleted (vs ! j) = v_deleted (vs1 ! j) \<and>
           quadric (vs ! j) = quadric (vs1 ! j) \<and> v_edges (vs ! j) = v_edges (vs1 ! j) \<and>
           set (v_faces (vs ! j)) =
             (if j = a then set (v_faces (vs1 ! j)) \<union> {f \<in> P. \<not> f_deleted (fs1 ! f)}
              else set (v_faces (vs1 ! j)))"
    and F: "\<And>i. i < length fs1 \<Longrightarrow>
           f_deleted (fs ! i) = f_deleted (fs1 ! i) \<and>
           f_vertices (fs ! i) =
             (if i \<in> P \<and> \<not> f_deleted (fs1 ! i) then replaceVertex b a (f_vertices (fs1 ! i))
              else f_vertices (fs1 ! i))"
    by (simp_all add: tf_inv_def)
  show ?thesis
  proof (cases "f_deleted (fs1 ! x)")
    case True
    with F [OF x] have "f_deleted (fs ! x)" by simp
    then have "transferFace a b x s = Some s" using s x len by (simp add: transferFace_def nth_opt_def)
    moreover have "tf_inv a b vs1 fs1 (insert x P) s"
      unfolding tf_inv_def s prod.case
    proof (intro conjI allI impI)
      show "length vs = length vs1" "length fs = length fs1" by fact+
    next
      fix j assume j: "j < length vs1"
      have "{f \<in> insert x P. \<not> f_deleted (fs1 ! f)} = {f \<in> P. \<not> f_deleted (fs1 ! f)}"
        using True by auto
      with V [OF j] show "position (vs ! j) = position (vs1 ! j)"
        "v_deleted (vs ! j) = v_deleted (vs1 ! j)" "quadric (vs ! j) = quadric (vs1 ! j)"
        "v_edges (vs ! j) = v_edges (vs1 ! j)"
        "set (v_faces (vs ! j)) =
             (if j = a then set (v_faces (vs1 ! j)) \<union> {f \<in> insert x P. \<not> f_deleted (fs1 ! f)}
              else set (v_faces (vs1 ! j)))"
        by simp_all
    next
      fix i assume i: "i < length fs1"
      from F [OF i] show "f_deleted (fs ! i) = f_deleted (fs1 ! i)" by simp
      from F [OF i] True show "f_vertices (fs ! i) =
             (if i \<in> insert x P \<and> \<not> f_deleted (fs1 ! i)
              then replaceVertex b a (f_vertices (fs1 ! i)) else f_vertices (fs1 ! i))"
        by (cases "i = x") auto
    qed
    ultimately show ?thesis by blast
  next
    case False
    with F [OF x] have live: "\<not> f_deleted (fs ! x)" by simp
    let ?t = "replaceVertex b a (f_vertices (fs ! x))"
    have t_eq: "?t = replaceVertex b a (f_vertices (fs1 ! x))"
      using F [OF x] False ab(2) by (auto simp: replaceVertex_idem)
    have "tri_in_range (length vs1) ?t"
      unfolding t_eq using rg x ab(1) by (simp add: replaceVertex_range)
    then obtain i0 i1 i2 where t: "?t = (i0, i1, i2)" "i0 < length vs" "i1 < length vs"
      "i2 < length vs"
      using len by (cases ?t) (auto simp: tri_in_range_def)
    from computeFaceNormal_Some [of "(fs ! x)\<lparr>f_vertices := ?t\<rparr>" i0 i1 i2 vs] t
    obtain fc where fc: "computeFaceNormal vs ((fs ! x)\<lparr>f_vertices := ?t\<rparr>) = Some fc"
      "f_vertices fc = ?t" "f_deleted fc = f_deleted (fs ! x)"
      by auto
    define vs' where "vs' = (if x \<in> set (v_faces (vs ! a)) then vs
        else vs[a := (vs ! a)\<lparr>v_faces := v_faces (vs ! a) @ [x]\<rparr>])"
    have res: "transferFace a b x s = Some (vs', fs[x := fc])"
      using s x len live fc(1) ab(1)
      by (simp add: transferFace_def nth_opt_def upd_at_def pushFace_def vs'_def)
    have "tf_inv a b vs1 fs1 (insert x P) (vs', fs[x := fc])"
      unfolding tf_inv_def prod.case
    proof (intro conjI allI impI)
      show "length vs' = length vs1" using len by (simp add: vs'_def)
      show "length (fs[x := fc]) = length fs1" using len by simp
    next
      fix j assume j: "j < length vs1"
      have nj: "j \<noteq> a \<Longrightarrow> vs' ! j = vs ! j" by (simp add: vs'_def)
      have aj: "j = a \<Longrightarrow> position (vs' ! j) = position (vs ! j) \<and>
          v_deleted (vs' ! j) = v_deleted (vs ! j) \<and> quadric (vs' ! j) = quadric (vs ! j) \<and>
          v_edges (vs' ! j) = v_edges (vs ! j) \<and>
          set (v_faces (vs' ! j)) = insert x (set (v_faces (vs ! j)))"
        using j len by (auto simp: vs'_def)
      have "{f \<in> insert x P. \<not> f_deleted (fs1 ! f)} = insert x {f \<in> P. \<not> f_deleted (fs1 ! f)}"
        using False by auto
      with V [OF j] nj aj show "position (vs' ! j) = position (vs1 ! j)"
        "v_deleted (vs' ! j) = v_deleted (vs1 ! j)" "quadric (vs' ! j) = quadric (vs1 ! j)"
        "v_edges (vs' ! j) = v_edges (vs1 ! j)"
        "set (v_faces (vs' ! j)) =
             (if j = a then set (v_faces (vs1 ! j)) \<union> {f \<in> insert x P. \<not> f_deleted (fs1 ! f)}
              else set (v_faces (vs1 ! j)))"
        by (cases "j = a"; simp)+
    next
      fix i assume i: "i < length fs1"
      show "f_deleted (fs[x := fc] ! i) = f_deleted (fs1 ! i)"
        using F [OF i] i len fc(3) F [OF x] by (cases "i = x") simp_all
      show "f_vertices (fs[x := fc] ! i) =
             (if i \<in> insert x P \<and> \<not> f_deleted (fs1 ! i)
              then replaceVertex b a (f_vertices (fs1 ! i)) else f_vertices (fs1 ! i))"
        using F [OF i] i len fc(2) t_eq False by (cases "i = x") simp_all
    qed
    with res show ?thesis by blast
  qed
qed

lemma transferFace_fold:
  assumes ab: "a < length vs1" "a \<noteq> b"
    and rg: "\<forall>i < length fs1. tri_in_range (length vs1) (f_vertices (fs1 ! i))"
    and xs: "\<forall>x \<in> set xs. x < length fs1"
    and I: "tf_inv a b vs1 fs1 P s"
  shows "\<exists>s'. foldM (transferFace a b) xs s = Some s' \<and> tf_inv a b vs1 fs1 (P \<union> set xs) s'"
  using xs I
proof (induction xs arbitrary: P s)
  case Nil
  then show ?case by simp
next
  case (Cons x xs)
  have x: "x < length fs1" using Cons.prems(1) by simp
  from transferFace_step [OF ab rg x Cons.prems(2)] obtain s1 where
    s1: "transferFace a b x s = Some s1" "tf_inv a b vs1 fs1 (insert x P) s1" by blast
  have r: "\<forall>x \<in> set xs. x < length fs1" using Cons.prems(1) by simp
  from Cons.IH [OF r s1(2)] obtain s' where
    "foldM (transferFace a b) xs s1 = Some s'" "tf_inv a b vs1 fs1 (insert x P \<union> set xs) s'"
    by blast
  with s1(1) show ?case by (auto simp: insert_commute Un_insert_left Un_insert_right)
qed

lemma mesh_inv_collapse:
  assumes M: "mesh_inv vs fs"
    and ab: "a < length vs" "b < length vs" "a \<noteq> b" "\<not> v_deleted (vs ! a)"
    and len: "length vs3 = length vs" "length fs2 = length fs"
    and V: "\<And>j. j < length vs \<Longrightarrow>
        v_deleted (vs3 ! j) = (v_deleted (vs ! j) \<or> j = b) \<and>
        set (v_faces (vs3 ! j)) =
          (if j = a then set (v_faces (vs ! a)) \<union>
                         {f \<in> set (v_faces (vs ! b)). \<not> f_deleted (fs2 ! f)}
           else set (v_faces (vs ! j)))"
    and F: "\<And>i. i < length fs \<Longrightarrow>
        f_deleted (fs2 ! i) =
          (f_deleted (fs ! i) \<or> (i \<in> set (v_faces (vs ! a)) \<and> i \<in> set (v_faces (vs ! b)))) \<and>
        f_vertices (fs2 ! i) =
          (if i \<in> set (v_faces (vs ! b)) \<and> \<not> f_deleted (fs2 ! i)
           then replaceVertex b a (f_vertices (fs ! i)) else f_vertices (fs ! i))"
  shows "mesh_inv vs3 fs2"
proof -
  have R: "\<And>j f. j < length vs \<Longrightarrow> f \<in> set (v_faces (vs ! j)) \<Longrightarrow> f < length fs"
    using M by (simp add: mesh_inv_def)
  have 1: "\<forall>j < length vs3. \<forall>f \<in> set (v_faces (vs3 ! j)). f < length fs2"
  proof (intro allI impI ballI)
    fix j f assume "j < length vs3" and f: "f \<in> set (v_faces (vs3 ! j))"
    then have j: "j < length vs" using len by simp
    from f V [OF j] have "f \<in> set (v_faces (vs ! j)) \<or> f \<in> set (v_faces (vs ! b))"
      by (auto split: if_splits)
    with R j ab(2) len show "f < length fs2" by auto
  qed
  have keepw: "\<And>w i. w < length vs \<Longrightarrow> w \<noteq> b \<Longrightarrow> vlive vs w i \<Longrightarrow> vlive vs3 w i"
  proof -
    fix w i assume w: "w < length vs" "w \<noteq> b" "vlive vs w i"
    from V [OF w(1)] w(2,3) show "vlive vs3 w i" by (auto simp: vlive_def split: if_splits)
  qed
  have 2: "\<forall>i < length fs2. face_ok vs3 i (fs2 ! i)"
  proof (intro allI impI)
    fix i assume "i < length fs2"
    then have i: "i < length fs" using len by simp
    with M have ok: "face_ok vs i (fs ! i)" by (simp add: mesh_inv_def)
    obtain x y z where xyz: "f_vertices (fs ! i) = (x, y, z)" by (cases "f_vertices (fs ! i)")
    from ok xyz have r: "x < length vs" "y < length vs" "z < length vs"
      by (auto simp: face_ok_def)
    show "face_ok vs3 i (fs2 ! i)"
    proof (cases "f_deleted (fs2 ! i)")
      case True
      have "tri_in_range (length vs) (f_vertices (fs2 ! i))"
        using F [OF i] True xyz r by (simp add: tri_in_range_def)
      with True len show ?thesis
        by (cases "f_vertices (fs2 ! i)") (simp add: face_ok_def tri_in_range_def)
    next
      case False
      with F [OF i] have lv: "\<not> f_deleted (fs ! i)"
        and ns: "\<not> (i \<in> set (v_faces (vs ! a)) \<and> i \<in> set (v_faces (vs ! b)))" by auto
      from ok xyz lv have d: "x \<noteq> y" "y \<noteq> z" "z \<noteq> x"
        and l: "vlive vs x i" "vlive vs y i" "vlive vs z i"
        by (auto simp: face_ok_def)
      show ?thesis
      proof (cases "i \<in> set (v_faces (vs ! b))")
        case True
        with ns have "i \<notin> set (v_faces (vs ! a))" by simp
        with l have na: "x \<noteq> a" "y \<noteq> a" "z \<noteq> a" by (auto simp: vlive_def)
        have la: "vlive vs3 a i"
          using V [OF ab(1)] ab True False by (simp add: vlive_def)
        have fv: "f_vertices (fs2 ! i) =
            (if x = b then a else x, if y = b then a else y, if z = b then a else z)"
          using F [OF i] True False xyz by (simp add: replaceVertex_def)
        have lx: "vlive vs3 (if x = b then a else x) i"
          using la keepw [OF r(1) _ l(1)] by simp
        have ly: "vlive vs3 (if y = b then a else y) i"
          using la keepw [OF r(2) _ l(2)] by simp
        have lz: "vlive vs3 (if z = b then a else z) i"
          using la keepw [OF r(3) _ l(3)] by simp
        show ?thesis
          unfolding face_ok_def fv prod.case
          using r ab d na lx ly lz len by auto
      next
        case nb: False
        with l have nb': "x \<noteq> b" "y \<noteq> b" "z \<noteq> b" by (auto simp: vlive_def)
        have fv: "f_vertices (fs2 ! i) = (x, y, z)" using F [OF i] nb xyz by simp
        show ?thesis
          unfolding face_ok_def fv prod.case
          using r d len False keepw [OF r(1) nb'(1) l(1)] keepw [OF r(2) nb'(2) l(2)]
            keepw [OF r(3) nb'(3) l(3)]
          by simp
      qed
    qed
  qed
  from 1 2 show ?thesis by (simp add: mesh_inv_def)
qed

lemma ef_inv_refl: "ef_inv es es"
  by (simp add: ef_inv_def)

lemma ef_inv_update:
  assumes I: "ef_inv es0 es" and ei: "ei < length es0"
    and e: "e_v0 e' = e_v0 (es ! ei)" "e_v1 e' = e_v1 (es ! ei)" "e_faces e' = e_faces (es ! ei)"
      "e_deleted (es ! ei) \<longrightarrow> e_deleted e'" "target (es ! ei) \<noteq> None \<longrightarrow> target e' \<noteq> None"
  shows "ef_inv es0 (es[ei := e'])"
  unfolding ef_inv_def
proof (intro conjI allI impI)
  show "length (es[ei := e']) = length es0" using I by (simp add: ef_inv_def)
next
  fix i assume i: "i < length es0"
  from I have len: "length es = length es0" by (simp add: ef_inv_def)
  from I i have *: "e_v0 (es ! i) = e_v0 (es0 ! i) \<and> e_v1 (es ! i) = e_v1 (es0 ! i) \<and>
        e_faces (es ! i) = e_faces (es0 ! i) \<and>
        (e_deleted (es0 ! i) \<longrightarrow> e_deleted (es ! i)) \<and>
        (target (es0 ! i) \<noteq> None \<longrightarrow> target (es ! i) \<noteq> None)"
    by (simp add: ef_inv_def)
  show "e_v0 (es[ei := e'] ! i) = e_v0 (es0 ! i)" using * e i len by (cases "i = ei") simp_all
  show "e_v1 (es[ei := e'] ! i) = e_v1 (es0 ! i)" using * e i len by (cases "i = ei") simp_all
  show "e_faces (es[ei := e'] ! i) = e_faces (es0 ! i)" using * e i len by (cases "i = ei") simp_all
  show "e_deleted (es0 ! i) \<Longrightarrow> e_deleted (es[ei := e'] ! i)"
    using * e i len by (cases "i = ei") simp_all
  show "target (es0 ! i) \<noteq> None \<Longrightarrow> target (es[ei := e'] ! i) \<noteq> None"
    using * e i len by (cases "i = ei") simp_all
qed

lemma recostEdge_step:
  assumes I: "ef_inv es0 es" and ei: "ei < length es0"
    and ok: "\<forall>i < length es0. edge_ok (length vs) (length fs) (es0 ! i)"
    and q: "\<forall>j < length vs. quadric (vs ! j) \<noteq> None" "quadric vertex \<noteq> None"
  shows "\<exists>es'. recostEdge vs fs vIndex vertex ei es = Some es' \<and> ef_inv es0 es'"
proof -
  from I have len: "length es = length es0" by (simp add: ef_inv_def)
  let ?e = "es ! ei"
  from I ei have same: "e_v0 ?e = e_v0 (es0 ! ei)" "e_v1 ?e = e_v1 (es0 ! ei)"
    "e_faces ?e = e_faces (es0 ! ei)" by (simp_all add: ef_inv_def)
  from ok ei same have rg: "e_v0 ?e < length vs" "e_v1 ?e < length vs"
    "\<forall>f \<in> set (e_faces ?e). f < length fs" by (simp_all add: edge_ok_def)
  define other where "other = (if e_v0 ?e = vIndex then e_v1 ?e else e_v0 ?e)"
  have o: "other < length vs" using rg by (simp add: other_def)
  show ?thesis
  proof (cases "e_deleted ?e")
    case True
    then have "recostEdge vs fs vIndex vertex ei es = Some es"
      using ei len by (simp add: recostEdge_def nth_opt_def)
    with I show ?thesis by blast
  next
    case False
    show ?thesis
    proof (cases "v_deleted (vs ! other)")
      case True
      have "recostEdge vs fs vIndex vertex ei es = Some (es[ei := ?e\<lparr>e_deleted := True\<rparr>])"
        using ei len False True o by (simp add: recostEdge_def nth_opt_def other_def Let_def)
      moreover have "ef_inv es0 (es[ei := ?e\<lparr>e_deleted := True\<rparr>])"
        by (rule ef_inv_update [OF I ei]) simp_all
      ultimately show ?thesis by blast
    next
      case nd: False
      from q o obtain qv qo where qq: "quadric vertex = Some qv" "quadric (vs ! other) = Some qo"
        by auto
      have "\<And>x. x \<in> set (e_faces ?e) \<Longrightarrow> \<exists>y. faceLive fs x = Some y"
        using rg(3) by (simp add: faceLive_def nth_opt_def)
      from mapM_total [of "e_faces ?e" "faceLive fs", OF this] obtain live where
        live: "mapM (faceLive fs) (e_faces ?e) = Some live" by blast
      define e' where "e' = ?e\<lparr>target := Some (edgeTarget vertex (vs ! other)),
          cost := (if length (filter (\<lambda>b. b) live) < 2
                   then cost_times (quadricCost qv qo (edgeTarget vertex (vs ! other))) 10
                   else quadricCost qv qo (edgeTarget vertex (vs ! other)))\<rparr>"
      have "recostEdge vs fs vIndex vertex ei es = Some (es[ei := e'])"
        using ei len False nd o qq live
        by (simp add: recostEdge_def nth_opt_def other_def Let_def e'_def)
      moreover have "ef_inv es0 (es[ei := e'])"
        by (rule ef_inv_update [OF I ei]) (simp_all add: e'_def)
      ultimately show ?thesis by blast
    qed
  qed
qed

lemma recostVertex_step:
  assumes I: "ef_inv es0 es"
    and ok: "\<forall>i < length es0. edge_ok (length vs) (length fs) (es0 ! i)"
    and q: "\<forall>j < length vs. quadric (vs ! j) \<noteq> None"
    and v: "vIndex < length vs" "\<forall>e \<in> set (v_edges (vs ! vIndex)). e < length es0"
  shows "\<exists>es'. recostVertex vs fs vIndex es = Some es' \<and> ef_inv es0 es'"
proof (cases "v_deleted (vs ! vIndex)")
  case True
  with I v show ?thesis by (auto simp: recostVertex_def nth_opt_def)
next
  case False
  have qv: "quadric (vs ! vIndex) \<noteq> None" using q v(1) by simp
  have step: "\<And>x s. x \<in> set (v_edges (vs ! vIndex)) \<Longrightarrow> ef_inv es0 s \<Longrightarrow>
      \<exists>s'. recostEdge vs fs vIndex (vs ! vIndex) x s = Some s' \<and> ef_inv es0 s'"
  proof -
    fix x s assume x: "x \<in> set (v_edges (vs ! vIndex))" and Is: "ef_inv es0 s"
    from x v(2) have "x < length es0" by blast
    from recostEdge_step [OF Is this ok q qv]
    show "\<exists>s'. recostEdge vs fs vIndex (vs ! vIndex) x s = Some s' \<and> ef_inv es0 s'" .
  qed
  from foldM_total [where I = "ef_inv es0" and f = "recostEdge vs fs vIndex (vs ! vIndex)"
      and xs = "v_edges (vs ! vIndex)", OF I step]
  show ?thesis using False v(1) by (simp add: recostVertex_def nth_opt_def)
qed

lemma affected_fold:
  assumes "\<forall>f \<in> set xs. f < length fs"
    and "\<forall>i < length fs. tri_in_range n (f_vertices (fs ! i))"
    and "\<forall>v \<in> set aff. v < n"
  shows "\<exists>aff'. foldM (affectedOfFace fs) xs aff = Some aff' \<and> (\<forall>v \<in> set aff'. v < n)"
proof -
  have step: "\<And>x s. x \<in> set xs \<Longrightarrow> (\<forall>v \<in> set s. v < n) \<Longrightarrow>
      \<exists>s'. affectedOfFace fs x s = Some s' \<and> (\<forall>v \<in> set s'. v < n)"
  proof -
    fix x s assume x: "x \<in> set xs" and s: "\<forall>v \<in> set s. v < n"
    from x assms(1) have xl: "x < length fs" by blast
    with assms(2) have "tri_in_range n (f_vertices (fs ! x))" by blast
    then show "\<exists>s'. affectedOfFace fs x s = Some s' \<and> (\<forall>v \<in> set s'. v < n)"
      using xl s
      by (cases "f_vertices (fs ! x)")
        (auto simp: affectedOfFace_def nth_opt_def setAdd_def tri_in_range_def)
  qed
  from foldM_total [where I = "\<lambda>s. \<forall>v \<in> set s. v < n" and f = "affectedOfFace fs" and xs = xs,
      OF assms(3) step]
  show ?thesis .
qed

lemma collapseEdge_total:
  assumes I: "mesh_ok st" and ei: "ei < length (edges st)"
    and live: "\<not> v_deleted (vertices st ! e_v0 (edges st ! ei))"
  shows "\<exists>st'. collapseEdge st ei = Some st' \<and> mesh_ok st' \<and>
           length (vertices st') = length (vertices st) \<and>
           length (faces st') = length (faces st) \<and>
           length (edges st') = length (edges st) \<and>
           (\<forall>i < length (faces st).
              f_deleted (faces st' ! i) =
                (f_deleted (faces st ! i) \<or>
                 (i \<in> set (v_faces (vertices st ! e_v0 (edges st ! ei))) \<and>
                  i \<in> set (v_faces (vertices st ! e_v1 (edges st ! ei)))))) \<and>
           (\<forall>j < length (vertices st).
              v_deleted (vertices st' ! j) =
                (v_deleted (vertices st ! j) \<or> j = e_v1 (edges st ! ei))) \<and>
           (\<forall>i < length (edges st). e_deleted (edges st ! i) \<longrightarrow> e_deleted (edges st' ! i)) \<and>
           e_deleted (edges st' ! ei)"
proof -
  let ?vs = "vertices st" and ?fs = "faces st" and ?es = "edges st"
  let ?edge = "?es ! ei"
  define a where "a = e_v0 ?edge"
  define b where "b = e_v1 ?edge"
  from I have M: "mesh_inv ?vs ?fs" and E: "edges_inv st" by (simp_all add: mesh_ok_def)
  from E ei have eok: "edge_ok (length ?vs) (length ?fs) ?edge" "target ?edge \<noteq> None"
    by (simp_all add: edges_inv_def)
  then have ab: "a < length ?vs" "b < length ?vs" "a \<noteq> b"
    by (simp_all add: edge_ok_def a_def b_def)
  from eok obtain t where t: "target ?edge = Some t" by auto
  from E have Q: "\<And>j. j < length ?vs \<Longrightarrow> quadric (?vs ! j) \<noteq> None"
    and VE: "\<And>j. j < length ?vs \<Longrightarrow> \<forall>e \<in> set (v_edges (?vs ! j)). e < length ?es"
    and EO: "\<forall>i < length ?es. edge_ok (length ?vs) (length ?fs) (?es ! i)"
    and ET: "\<forall>i < length ?es. target (?es ! i) \<noteq> None"
    by (simp_all add: edges_inv_def)
  from Q ab obtain q0 q1 where q: "quadric (?vs ! a) = Some q0" "quadric (?vs ! b) = Some q1"
    by (metis not_Some_eq)
  have R: "\<And>j f. j < length ?vs \<Longrightarrow> f \<in> set (v_faces (?vs ! j)) \<Longrightarrow> f < length ?fs"
    using M by (simp add: mesh_inv_def)
  have TR: "\<forall>i < length ?fs. tri_in_range (length ?vs) (f_vertices (?fs ! i))"
  proof (intro allI impI)
    fix i assume "i < length ?fs"
    with M have "face_ok ?vs i (?fs ! i)" by (simp add: mesh_inv_def)
    then show "tri_in_range (length ?vs) (f_vertices (?fs ! i))"
      by (cases "f_vertices (?fs ! i)") (simp add: face_ok_def tri_in_range_def)
  qed
  \<comment> \<open>moving v0 and adding the quadric\<close>
  define vs0 where "vs0 = ?vs[a := (?vs ! a)\<lparr>position := t\<rparr>]"
  define vs1 where "vs1 = vs0[a := (vs0 ! a)\<lparr>quadric := Some (q_add q0 q1)\<rparr>]"
  have s0: "upd_at ?vs a (\<lambda>v. Some (v\<lparr>position := t\<rparr>)) = Some vs0"
    using ab by (simp add: upd_at_def vs0_def)
  have s0b: "nth_opt vs0 b = Some (?vs ! b)"
    using ab by (simp add: nth_opt_def vs0_def)
  have s1: "upd_at vs0 a (addQuadric q1) = Some vs1"
    using ab q by (simp add: upd_at_def addQuadric_def vs0_def vs1_def)
  have len1: "length vs1 = length ?vs" by (simp add: vs1_def vs0_def)
  have vs1: "\<And>j. j < length ?vs \<Longrightarrow> v_faces (vs1 ! j) = v_faces (?vs ! j) \<and>
      v_deleted (vs1 ! j) = v_deleted (?vs ! j) \<and> v_edges (vs1 ! j) = v_edges (?vs ! j) \<and>
      quadric (vs1 ! j) \<noteq> None"
  proof -
    fix j assume j: "j < length ?vs"
    show "v_faces (vs1 ! j) = v_faces (?vs ! j) \<and>
      v_deleted (vs1 ! j) = v_deleted (?vs ! j) \<and> v_edges (vs1 ! j) = v_edges (?vs ! j) \<and>
      quadric (vs1 ! j) \<noteq> None"
      using j Q [OF j] by (cases "j = a") (simp_all add: vs1_def vs0_def)
  qed
  \<comment> \<open>deleting the shared faces\<close>
  define shared where "shared = filter (\<lambda>fIdx. fIdx \<in> set (v_faces (?vs ! b))) (v_faces (?vs ! a))"
  have shr: "\<forall>f \<in> set shared. f < length ?fs" using R [OF ab(1)] by (simp add: shared_def)
  from markDeleted_fold [OF shr] obtain fs1 where
    fs1: "foldM markDeleted shared ?fs = Some fs1" "length fs1 = length ?fs"
      "\<forall>i < length ?fs. f_vertices (fs1 ! i) = f_vertices (?fs ! i) \<and>
              f_deleted (fs1 ! i) = (f_deleted (?fs ! i) \<or> i \<in> set shared)"
    by blast
  \<comment> \<open>transferring the faces of v1\<close>
  have rg1: "\<forall>i < length fs1. tri_in_range (length vs1) (f_vertices (fs1 ! i))"
    using TR fs1(2,3) len1 by simp
  have L: "\<forall>x \<in> set (v_faces (?vs ! b)). x < length fs1" using R [OF ab(2)] fs1(2) by simp
  have T0: "tf_inv a b vs1 fs1 {} (vs1, fs1)" by (simp add: tf_inv_def)
  have a1: "a < length vs1" using ab len1 by simp
  from transferFace_fold [OF a1 ab(3) rg1 L T0] obtain vs2 fs2 where
    tr: "foldM (transferFace a b) (v_faces (?vs ! b)) (vs1, fs1) = Some (vs2, fs2)"
      "tf_inv a b vs1 fs1 (set (v_faces (?vs ! b))) (vs2, fs2)"
    by auto
  from tr(2) have len2: "length vs2 = length ?vs" "length fs2 = length ?fs"
    and V2: "\<And>j. j < length ?vs \<Longrightarrow>
           v_deleted (vs2 ! j) = v_deleted (vs1 ! j) \<and>
           quadric (vs2 ! j) = quadric (vs1 ! j) \<and> v_edges (vs2 ! j) = v_edges (vs1 ! j) \<and>
           set (v_faces (vs2 ! j)) =
             (if j = a then set (v_faces (vs1 ! j)) \<union>
                            {f \<in> set (v_faces (?vs ! b)). \<not> f_deleted (fs1 ! f)}
              else set (v_faces (vs1 ! j)))"
    and F2: "\<And>i. i < length ?fs \<Longrightarrow>
           f_deleted (fs2 ! i) = f_deleted (fs1 ! i) \<and>
           f_vertices (fs2 ! i) =
             (if i \<in> set (v_faces (?vs ! b)) \<and> \<not> f_deleted (fs1 ! i)
              then replaceVertex b a (f_vertices (fs1 ! i)) else f_vertices (fs1 ! i))"
    using len1 fs1(2) by (simp_all add: tf_inv_def)
  \<comment> \<open>tombstones\<close>
  define vs3 where "vs3 = vs2[b := (vs2 ! b)\<lparr>v_deleted := True\<rparr>]"
  define es1 where "es1 = ?es[ei := ?edge\<lparr>e_deleted := True\<rparr>]"
  have s3: "upd_at vs2 b (\<lambda>v. Some (v\<lparr>v_deleted := True\<rparr>)) = Some vs3"
    using ab len2 by (simp add: upd_at_def vs3_def)
  have s4: "upd_at ?es ei (\<lambda>e. Some (e\<lparr>e_deleted := True\<rparr>)) = Some es1"
    using ei by (simp add: upd_at_def es1_def)
  have len3: "length vs3 = length ?vs" using len2 by (simp add: vs3_def)
  have V3: "\<And>j. j < length ?vs \<Longrightarrow>
        v_deleted (vs3 ! j) = (v_deleted (?vs ! j) \<or> j = b) \<and>
        quadric (vs3 ! j) \<noteq> None \<and> v_edges (vs3 ! j) = v_edges (?vs ! j) \<and>
        set (v_faces (vs3 ! j)) =
          (if j = a then set (v_faces (?vs ! a)) \<union>
                         {f \<in> set (v_faces (?vs ! b)). \<not> f_deleted (fs2 ! f)}
           else set (v_faces (?vs ! j)))"
  proof -
    fix j assume j: "j < length ?vs"
    have "{f \<in> set (v_faces (?vs ! b)). \<not> f_deleted (fs1 ! f)} =
        {f \<in> set (v_faces (?vs ! b)). \<not> f_deleted (fs2 ! f)}"
      using F2 R [OF ab(2)] by auto
    with V2 [OF j] vs1 [OF j] vs1 [OF ab(1)] ab(3) j len2
    show "v_deleted (vs3 ! j) = (v_deleted (?vs ! j) \<or> j = b) \<and>
        quadric (vs3 ! j) \<noteq> None \<and> v_edges (vs3 ! j) = v_edges (?vs ! j) \<and>
        set (v_faces (vs3 ! j)) =
          (if j = a then set (v_faces (?vs ! a)) \<union>
                         {f \<in> set (v_faces (?vs ! b)). \<not> f_deleted (fs2 ! f)}
           else set (v_faces (?vs ! j)))"
      by (cases "j = b") (simp_all add: vs3_def)
  qed
  have F3: "\<And>i. i < length ?fs \<Longrightarrow>
        f_deleted (fs2 ! i) =
          (f_deleted (?fs ! i) \<or> (i \<in> set (v_faces (?vs ! a)) \<and> i \<in> set (v_faces (?vs ! b)))) \<and>
        f_vertices (fs2 ! i) =
          (if i \<in> set (v_faces (?vs ! b)) \<and> \<not> f_deleted (fs2 ! i)
           then replaceVertex b a (f_vertices (?fs ! i)) else f_vertices (?fs ! i))"
  proof -
    fix i assume i: "i < length ?fs"
    have "i \<in> set shared \<longleftrightarrow> i \<in> set (v_faces (?vs ! a)) \<and> i \<in> set (v_faces (?vs ! b))"
      by (auto simp: shared_def)
    with F2 [OF i] fs1(3) i show "f_deleted (fs2 ! i) =
          (f_deleted (?fs ! i) \<or> (i \<in> set (v_faces (?vs ! a)) \<and> i \<in> set (v_faces (?vs ! b)))) \<and>
        f_vertices (fs2 ! i) =
          (if i \<in> set (v_faces (?vs ! b)) \<and> \<not> f_deleted (fs2 ! i)
           then replaceVertex b a (f_vertices (?fs ! i)) else f_vertices (?fs ! i))"
      by auto
  qed
  have la: "\<not> v_deleted (?vs ! a)" using live by (simp add: a_def)
  have M3: "mesh_inv vs3 fs2"
    by (rule mesh_inv_collapse [OF M ab la len3 len2(2)]) (use V3 F3 in auto)
  \<comment> \<open>affected vertices and local costs\<close>
  have TR2: "\<forall>i < length fs2. tri_in_range (length ?vs) (f_vertices (fs2 ! i))"
  proof (intro allI impI)
    fix i assume "i < length fs2"
    with M3 have "face_ok vs3 i (fs2 ! i)" by (simp add: mesh_inv_def)
    then show "tri_in_range (length ?vs) (f_vertices (fs2 ! i))"
      using len3 by (cases "f_vertices (fs2 ! i)") (simp add: face_ok_def tri_in_range_def)
  qed
  have fa: "\<forall>f \<in> set (v_faces (vs3 ! a)). f < length fs2"
    using M3 ab(1) len3 by (simp add: mesh_inv_def)
  have a0: "\<forall>v \<in> set [a]. v < length ?vs" using ab by simp
  from affected_fold [OF fa TR2 a0] obtain aff where
    aff: "foldM (affectedOfFace fs2) (v_faces (vs3 ! a)) [a] = Some aff"
      "\<forall>v \<in> set aff. v < length ?vs"
    by blast
  have I1: "ef_inv ?es es1"
    unfolding es1_def by (rule ef_inv_update [OF ef_inv_refl ei]) simp_all
  have ok3: "\<forall>i < length ?es. edge_ok (length vs3) (length fs2) (?es ! i)"
    using EO len3 len2 by simp
  have q3: "\<forall>j < length vs3. quadric (vs3 ! j) \<noteq> None" using V3 len3 by simp
  have step: "\<And>x s. x \<in> set aff \<Longrightarrow> ef_inv ?es s \<Longrightarrow>
      \<exists>s'. recostVertex vs3 fs2 x s = Some s' \<and> ef_inv ?es s'"
  proof -
    fix x s assume x: "x \<in> set aff" and Is: "ef_inv ?es s"
    from x aff(2) have xl: "x < length ?vs" by blast
    then have x3: "x < length vs3" using len3 by simp
    have "\<forall>e \<in> set (v_edges (vs3 ! x)). e < length ?es" using V3 [OF xl] VE [OF xl] by simp
    from recostVertex_step [OF Is ok3 q3 x3 this]
    show "\<exists>s'. recostVertex vs3 fs2 x s = Some s' \<and> ef_inv ?es s'" .
  qed
  from foldM_total [where I = "ef_inv ?es" and f = "recostVertex vs3 fs2" and xs = aff,
      OF I1 step]
  obtain es2 where es2: "foldM (recostVertex vs3 fs2) aff es1 = Some es2" "ef_inv ?es es2"
    by blast
  \<comment> \<open>the result\<close>
  let ?st = "\<lparr>vertices = vs3, faces = fs2, edges = es2\<rparr>"
  have n1: "nth_opt ?es ei = Some ?edge" using ei by (simp add: nth_opt_def)
  have n2: "nth_opt ?vs a = Some (?vs ! a)" "nth_opt ?vs b = Some (?vs ! b)"
    using ab by (simp_all add: nth_opt_def)
  have n3: "nth_opt vs3 a = Some (vs3 ! a)" using ab len3 by (simp add: nth_opt_def)
  have res: "collapseEdge st ei = Some ?st"
    using n1 n2 n3 t q s0 s0b s1 fs1(1) tr(1) s3 s4 aff(1) es2(1)
    by (simp add: collapseEdge_def Let_def a_def [symmetric] b_def [symmetric]
        shared_def [symmetric])
  from es2(2) have len_e: "length es2 = length ?es"
    and E2: "\<And>i. i < length ?es \<Longrightarrow>
        e_v0 (es2 ! i) = e_v0 (?es ! i) \<and> e_v1 (es2 ! i) = e_v1 (?es ! i) \<and>
        e_faces (es2 ! i) = e_faces (?es ! i) \<and>
        (e_deleted (?es ! i) \<longrightarrow> e_deleted (es2 ! i)) \<and>
        (target (?es ! i) \<noteq> None \<longrightarrow> target (es2 ! i) \<noteq> None)"
    by (simp_all add: ef_inv_def)
  have Einv: "edges_inv ?st"
    unfolding edges_inv_def
  proof (intro conjI allI impI)
    fix i assume "i < length (vertices ?st)"
    then have i: "i < length ?vs" using len3 by simp
    show "quadric (vertices ?st ! i) \<noteq> None" using V3 [OF i] by simp
    show "\<forall>e \<in> set (v_edges (vertices ?st ! i)). e < length (edges ?st)"
      using V3 [OF i] VE [OF i] len_e by simp
  next
    fix i assume "i < length (edges ?st)"
    then have i: "i < length ?es" using len_e by simp
    from EO i have "edge_ok (length ?vs) (length ?fs) (?es ! i)" by blast
    with E2 [OF i] show "edge_ok (length (vertices ?st)) (length (faces ?st)) (edges ?st ! i)"
      using len3 len2 by (simp add: edge_ok_def)
    from ET i E2 [OF i] show "target (edges ?st ! i) \<noteq> None" by simp
  qed
  have del_ei: "e_deleted (es2 ! ei)"
  proof -
    have "e_deleted (es1 ! ei)" using ei by (simp add: es1_def)
    moreover have "ef_inv es1 es2"
    proof -
      have st1: "\<And>x s. x \<in> set aff \<Longrightarrow> ef_inv es1 s \<Longrightarrow>
          \<exists>s'. recostVertex vs3 fs2 x s = Some s' \<and> ef_inv es1 s'"
      proof -
        fix x s assume x: "x \<in> set aff" and Is: "ef_inv es1 s"
        from x aff(2) have xl: "x < length ?vs" by blast
        then have x3: "x < length vs3" using len3 by simp
        have l1: "length es1 = length ?es" by (simp add: es1_def)
        have ve: "\<forall>e \<in> set (v_edges (vs3 ! x)). e < length es1"
          using V3 [OF xl] VE [OF xl] l1 by simp
        have ok1: "\<forall>i < length es1. edge_ok (length vs3) (length fs2) (es1 ! i)"
        proof (intro allI impI)
          fix i assume "i < length es1"
          then have i: "i < length ?es" using l1 by simp
          with ok3 have "edge_ok (length vs3) (length fs2) (?es ! i)" by blast
          then show "edge_ok (length vs3) (length fs2) (es1 ! i)"
            using i by (cases "i = ei") (simp_all add: es1_def edge_ok_def)
        qed
        from recostVertex_step [OF Is ok1 q3 x3 ve]
        show "\<exists>s'. recostVertex vs3 fs2 x s = Some s' \<and> ef_inv es1 s'" .
      qed
      from foldM_total [where I = "ef_inv es1" and f = "recostVertex vs3 fs2" and xs = aff,
          OF ef_inv_refl st1] es2(1)
      show ?thesis by simp
    qed
    ultimately show ?thesis using ei by (simp add: ef_inv_def es1_def)
  qed
  have "mesh_ok ?st" using M3 Einv by (simp add: mesh_ok_def)
  moreover have "\<forall>i < length ?fs. f_deleted (faces ?st ! i) =
      (f_deleted (?fs ! i) \<or> (i \<in> set (v_faces (?vs ! e_v0 ?edge)) \<and>
        i \<in> set (v_faces (?vs ! e_v1 ?edge))))"
    using F3 by (simp add: a_def b_def)
  moreover have "\<forall>j < length ?vs. v_deleted (vertices ?st ! j) =
      (v_deleted (?vs ! j) \<or> j = e_v1 ?edge)"
    using V3 by (simp add: b_def)
  moreover have "\<forall>i < length ?es. e_deleted (?es ! i) \<longrightarrow> e_deleted (edges ?st ! i)"
    using E2 by simp
  ultimately show ?thesis
    using res len3 len2 len_e del_ei by simp
qed

declare collapseLoop.simps [simp del]

lemma flags_mono_refl: "flags_mono st st"
  by (simp add: flags_mono_def)

lemma flags_mono_trans: "flags_mono a b \<Longrightarrow> flags_mono b c \<Longrightarrow> flags_mono a c"
  by (simp add: flags_mono_def)

lemma filter_mono_length:
  assumes "length xs = length ys" "\<forall>i < length xs. P (ys ! i) \<longrightarrow> P (xs ! i)"
  shows "length (filter P ys) \<le> length (filter P xs)"
  using assms
proof (induction xs ys rule: list_induct2)
  case Nil
  then show ?case by simp
next
  case (Cons x xs y ys)
  from Cons.prems have h: "P y \<longrightarrow> P x" by auto
  from Cons.prems have "\<forall>i < length xs. P (ys ! i) \<longrightarrow> P (xs ! i)" by auto
  with Cons.IH have "length (filter P ys) \<le> length (filter P xs)" by blast
  with h show ?case by auto
qed

lemma flags_mono_count:
  assumes "flags_mono st st'"
  shows "countActiveFaces st' \<le> countActiveFaces st"
proof -
  have "length (filter (\<lambda>f. \<not> f_deleted f) (faces st')) \<le>
      length (filter (\<lambda>f. \<not> f_deleted f) (faces st))"
    by (rule filter_mono_length) (use assms in \<open>auto simp: flags_mono_def\<close>)
  then show ?thesis by (simp add: countActiveFaces_def)
qed

lemma minStep_total:
  assumes E: "\<forall>i < length (edges st). e_v0 (edges st ! i) < length (vertices st) \<and>
             e_v1 (edges st ! i) < length (vertices st)"
    and x: "x < length (edges st)" and I: "min_inv st s"
  shows "\<exists>s'. minStep st x s = Some s' \<and> min_inv st s'"
proof -
  obtain me mc where s: "s = (me, mc)" by (cases s)
  let ?e = "edges st ! x"
  from E x have r: "e_v0 ?e < length (vertices st)" "e_v1 ?e < length (vertices st)" by auto
  show ?thesis
  proof (cases "\<not> e_deleted ?e \<and> \<not> v_deleted (vertices st ! e_v0 ?e) \<and>
      \<not> v_deleted (vertices st ! e_v1 ?e) \<and> cost_less (cost ?e) mc")
    case True
    then have ni: "cost ?e \<noteq> Infinity" by (cases "cost ?e") auto
    have "minStep st x s = Some (Some x, cost ?e)"
      using True s x r by (simp add: minStep_def nth_opt_def)
    moreover have "min_inv st (Some x, cost ?e)"
      using True x ni by (simp add: min_inv_def selectable_def)
    ultimately show ?thesis by blast
  next
    case False
    then have "minStep st x s = Some s"
      using s x r by (auto simp: minStep_def nth_opt_def)
    with I show ?thesis by blast
  qed
qed

lemma getMinimumCostEdge_total:
  assumes E: "\<forall>i < length (edges st). e_v0 (edges st ! i) < length (vertices st) \<and>
             e_v1 (edges st ! i) < length (vertices st)"
  shows "\<exists>r. getMinimumCostEdge st = Some r \<and> (case r of None \<Rightarrow> True | Some i \<Rightarrow> selectable st i)"
proof -
  have I0: "min_inv st (None, Infinity)" by (simp add: min_inv_def)
  have step: "\<And>x s. x \<in> set [0..<length (edges st)] \<Longrightarrow> min_inv st s \<Longrightarrow>
      \<exists>s'. minStep st x s = Some s' \<and> min_inv st s'"
    using minStep_total [OF E] by simp
  from foldM_total [where I = "min_inv st" and f = "minStep st" and xs = "[0..<length (edges st)]",
      OF I0 step]
  obtain s' where "foldM (minStep st) [0..<length (edges st)] (None, Infinity) = Some s'"
    "min_inv st s'" by blast
  then show ?thesis by (simp add: getMinimumCostEdge_def min_inv_def)
qed

lemma mesh_ok_endpoints:
  assumes "mesh_ok st"
  shows "\<forall>i < length (edges st). e_v0 (edges st ! i) < length (vertices st) \<and>
             e_v1 (edges st ! i) < length (vertices st)"
  using assms by (simp add: mesh_ok_def edges_inv_def edge_ok_def)

lemma collapse_selected:
  assumes I: "mesh_ok st" and s: "selectable st ei"
  shows "\<exists>st'. collapseEdge st ei = Some st' \<and> mesh_ok st' \<and> flags_mono st st' \<and>
           (\<forall>i < length (faces st).
              f_deleted (faces st' ! i) =
                (f_deleted (faces st ! i) \<or>
                 (i \<in> set (v_faces (vertices st ! e_v0 (edges st ! ei))) \<and>
                  i \<in> set (v_faces (vertices st ! e_v1 (edges st ! ei))))))"
proof -
  from s have ei: "ei < length (edges st)"
    and live: "\<not> v_deleted (vertices st ! e_v0 (edges st ! ei))"
    by (simp_all add: selectable_def)
  from collapseEdge_total [OF I ei live] obtain st' where
    r: "collapseEdge st ei = Some st'" "mesh_ok st'"
      "length (vertices st') = length (vertices st)"
      "length (faces st') = length (faces st)"
      "length (edges st') = length (edges st)"
      "\<forall>i < length (faces st).
              f_deleted (faces st' ! i) =
                (f_deleted (faces st ! i) \<or>
                 (i \<in> set (v_faces (vertices st ! e_v0 (edges st ! ei))) \<and>
                  i \<in> set (v_faces (vertices st ! e_v1 (edges st ! ei)))))"
      "\<forall>j < length (vertices st).
              v_deleted (vertices st' ! j) =
                (v_deleted (vertices st ! j) \<or> j = e_v1 (edges st ! ei))"
      "\<forall>i < length (edges st). e_deleted (edges st ! i) \<longrightarrow> e_deleted (edges st' ! i)"
    by blast
  have "flags_mono st st'"
    unfolding flags_mono_def using r(3-8) by simp
  with r(1,2,6) show ?thesis by blast
qed

lemma noStatus_collapseMessages: "noStatus (collapseMessages c b a)"
  by (simp add: noStatus_def collapseMessages_def)

lemma noStatus_append: "noStatus (xs @ ys) \<longleftrightarrow> noStatus xs \<and> noStatus ys"
  by (auto simp: noStatus_def)

lemma collapseLoop_total:
  assumes "mesh_ok st"
  shows "\<exists>cm st' n. mesh_ok st' \<and> flags_mono st st' \<and> it \<le> n \<and>
           (it \<le> maxIt \<longrightarrow> n \<le> maxIt) \<and> noStatus cm \<and>
           ((collapseLoop tgt maxIt st it msgs = (msgs @ cm, Some (st', n)) \<and>
             (enat (countActiveFaces st') \<le> tgt \<or> maxIt \<le> n)) \<or>
            (collapseLoop tgt maxIt st it msgs =
               (msgs @ cm @ [Progress (NoMoreEdges (countActiveFaces st') tgt)], Some (st', n)) \<and>
             tgt < enat (countActiveFaces st') \<and> n < maxIt))"
  using assms
proof (induction "maxIt - it" arbitrary: st it msgs rule: less_induct)
  case less
  show ?case
  proof (cases "enat (countActiveFaces st) > tgt \<and> it < maxIt")
    case False
    then have "collapseLoop tgt maxIt st it msgs = (msgs @ [], Some (st, it))"
      by (subst collapseLoop.simps) (simp only: if_False append_Nil2)
    moreover from False have "enat (countActiveFaces st) \<le> tgt \<or> maxIt \<le> it" by auto
    moreover have "noStatus []" by (simp add: noStatus_def)
    ultimately show ?thesis using less.prems flags_mono_refl by blast
  next
    case True
    from getMinimumCostEdge_total [OF mesh_ok_endpoints [OF less.prems]] obtain r where
      r: "getMinimumCostEdge st = Some r" "case r of None \<Rightarrow> True | Some i \<Rightarrow> selectable st i"
      by blast
    show ?thesis
    proof (cases r)
      case None
      have "collapseLoop tgt maxIt st it msgs =
          (msgs @ [] @ [Progress (NoMoreEdges (countActiveFaces st) tgt)], Some (st, it))"
        using True r(1) None by (subst collapseLoop.simps) (simp add: Let_def)
      moreover have "noStatus []" by (simp add: noStatus_def)
      ultimately show ?thesis using True less.prems flags_mono_refl by blast
    next
      case (Some ei)
      with r(2) have sel: "selectable st ei" by simp
      then have e: "nth_opt (edges st) ei = Some (edges st ! ei)" "cost (edges st ! ei) \<noteq> Infinity"
        by (simp_all add: selectable_def nth_opt_def)
      from collapse_selected [OF less.prems sel] obtain st1 where
        st1: "collapseEdge st ei = Some st1" "mesh_ok st1" "flags_mono st st1" by blast
      define c1 where "c1 = collapseMessages (it + 1) (countActiveFaces st) (countActiveFaces st1)"
      have un: "collapseLoop tgt maxIt st it msgs = collapseLoop tgt maxIt st1 (it + 1) (msgs @ c1)"
        using True r(1) Some e st1(1) by (subst collapseLoop.simps) (simp add: Let_def c1_def)
      have "maxIt - (it + 1) < maxIt - it" using True by linarith
      from less.hyps [OF this st1(2), of "msgs @ c1"] obtain cm st' n where
        res: "mesh_ok st'" "flags_mono st1 st'" "it + 1 \<le> n" "noStatus cm"
          "it + 1 \<le> maxIt \<longrightarrow> n \<le> maxIt"
          "(collapseLoop tgt maxIt st1 (it + 1) (msgs @ c1) = ((msgs @ c1) @ cm, Some (st', n)) \<and>
             (enat (countActiveFaces st') \<le> tgt \<or> maxIt \<le> n)) \<or>
            (collapseLoop tgt maxIt st1 (it + 1) (msgs @ c1) =
               ((msgs @ c1) @ cm @ [Progress (NoMoreEdges (countActiveFaces st') tgt)], Some (st', n)) \<and>
             tgt < enat (countActiveFaces st') \<and> n < maxIt)"
        by blast
      have fm: "flags_mono st st'" using st1(3) res(2) by (rule flags_mono_trans)
      have le: "it \<le> n" "it \<le> maxIt \<longrightarrow> n \<le> maxIt" using res(3,5) True by simp_all
      have ns: "noStatus (c1 @ cm)"
        using res(4) noStatus_collapseMessages by (simp add: noStatus_append c1_def)
      from res(6) have "(collapseLoop tgt maxIt st it msgs = (msgs @ (c1 @ cm), Some (st', n)) \<and>
             (enat (countActiveFaces st') \<le> tgt \<or> maxIt \<le> n)) \<or>
            (collapseLoop tgt maxIt st it msgs =
               (msgs @ (c1 @ cm) @ [Progress (NoMoreEdges (countActiveFaces st') tgt)], Some (st', n)) \<and>
             tgt < enat (countActiveFaces st') \<and> n < maxIt)"
        unfolding un by simp
      with res(1) fm le ns show ?thesis by blast
    qed
  qed
qed

lemma costed_fields:
  "e_v0 (costed vs e) = e_v0 e" "e_v1 (costed vs e) = e_v1 e" "e_faces (costed vs e) = e_faces e"
  "e_deleted (costed vs e) = e_deleted e"
  by (simp_all add: costed_def Let_def)

lemma others_inv_nth:
  assumes "others_inv vs fs"
  shows "\<And>j. j < length vs \<Longrightarrow> \<not> v_deleted (vs ! j)"
    and "\<And>i. i < length fs \<Longrightarrow> \<not> f_deleted (fs ! i)"
    and "\<forall>v \<in> set vs. v_edges v = []"
  using assms by (auto simp: others_inv_def)

lemma prepare_total:
  assumes e: "extractMeshData ps = Some st0"
    and M: "mesh_inv (vertices st0) (faces st0)" and O: "others_inv (vertices st0) (faces st0)"
  shows "\<exists>st. prepare ps = Some st \<and> mesh_ok st \<and> faces st = faces st0 \<and>
           same_core (vertices st0) (vertices st) \<and>
           (\<forall>i < length (edges st). \<not> e_deleted (edges st ! i))"
proof -
  from buildEdges_total [OF M others_inv_nth(3) [OF O]] obtain st1 where
    b: "buildEdges st0 = Some st1" "faces st1 = faces st0"
      "same_core (vertices st0) (vertices st1)"
      "\<forall>j < length (vertices st0). \<forall>e \<in> set (v_edges (vertices st1 ! j)). e < length (edges st1)"
      "\<forall>i < length (edges st1).
              edge_ok (length (vertices st0)) (length (faces st0)) (edges st1 ! i) \<and>
              \<not> e_deleted (edges st1 ! i)"
    by blast
  have M1: "mesh_inv (vertices st1) (faces st1)"
    using mesh_inv_same_core [OF b(3) M] b(2) by simp
  from computeQuadrics_total [OF M1] obtain st2 where
    c: "computeQuadrics st1 = Some st2" "faces st2 = faces st1" "edges st2 = edges st1"
      "cq_inv (vertices st1) (vertices st2)"
    by blast
  have len1: "length (vertices st1) = length (vertices st0)" using b(3) by (simp add: same_core_def)
  from c(4) have len2: "length (vertices st2) = length (vertices st1)"
    and C: "\<And>j. j < length (vertices st1) \<Longrightarrow>
        position (vertices st2 ! j) = position (vertices st1 ! j) \<and>
        v_faces (vertices st2 ! j) = v_faces (vertices st1 ! j) \<and>
        v_deleted (vertices st2 ! j) = v_deleted (vertices st1 ! j) \<and>
        v_edges (vertices st2 ! j) = v_edges (vertices st1 ! j) \<and>
        quadric (vertices st2 ! j) \<noteq> None"
    by (simp_all add: cq_inv_def)
  have sc12: "same_core (vertices st1) (vertices st2)"
    using len2 C by (simp add: same_core_def)
  have sc02: "same_core (vertices st0) (vertices st2)"
    using b(3) sc12 by (rule same_core_trans)
  have ep: "\<forall>i < length (edges st2). e_v0 (edges st2 ! i) < length (vertices st2) \<and>
             e_v1 (edges st2 ! i) < length (vertices st2)"
    using b(5) c(3) len1 len2 by (simp add: edge_ok_def)
  have qn: "\<forall>j < length (vertices st2). quadric (vertices st2 ! j) \<noteq> None"
    using C len2 by simp
  let ?st = "st2\<lparr>edges := map (costed (vertices st2)) (edges st2)\<rparr>"
  have d: "computeEdgeCosts st2 = Some ?st" by (rule computeEdgeCosts_costed [OF ep qn])
  have p: "prepare ps = Some ?st" using e b(1) c(1) d by (simp add: prepare_def)
  have M2: "mesh_inv (vertices ?st) (faces ?st)"
    using mesh_inv_same_core [OF sc12 M1] c(2) by simp
  have nd: "\<And>j. j < length (vertices st2) \<Longrightarrow> \<not> v_deleted (vertices st2 ! j)"
  proof -
    fix j assume "j < length (vertices st2)"
    then have j: "j < length (vertices st0)" using len1 len2 by simp
    with sc02 others_inv_nth(1) [OF O j] show "\<not> v_deleted (vertices st2 ! j)"
      by (simp add: same_core_def)
  qed
  have E: "edges_inv ?st"
    unfolding edges_inv_def
  proof (intro conjI allI impI)
    fix i assume "i < length (vertices ?st)"
    then have i: "i < length (vertices st1)" "i < length (vertices st0)" using len1 len2 by simp_all
    show "quadric (vertices ?st ! i) \<noteq> None" using C [OF i(1)] by simp
    show "\<forall>e \<in> set (v_edges (vertices ?st ! i)). e < length (edges ?st)"
      using C [OF i(1)] b(4) i(2) c(3) by simp
  next
    fix i assume "i < length (edges ?st)"
    then have i: "i < length (edges st1)" using c(3) by simp
    with b(5) have ok: "edge_ok (length (vertices st0)) (length (faces st0)) (edges st1 ! i)"
      "\<not> e_deleted (edges st1 ! i)" by auto
    show "edge_ok (length (vertices ?st)) (length (faces ?st)) (edges ?st ! i)"
      using ok(1) i c(2,3) b(2) len1 len2 by (simp add: edge_ok_def costed_fields)
    have r: "e_v0 (edges st1 ! i) < length (vertices st2)" "e_v1 (edges st1 ! i) < length (vertices st2)"
      using ok(1) len1 len2 by (simp_all add: edge_ok_def)
    show "target (edges ?st ! i) \<noteq> None"
      using i c(3) ok(2) nd [OF r(1)] nd [OF r(2)] by (simp add: costed_def Let_def)
  qed
  have "\<forall>i < length (edges ?st). \<not> e_deleted (edges ?st ! i)"
    using b(5) c(3) by (simp add: costed_fields)
  moreover have "faces ?st = faces st0" using b(2) c(2) by simp
  moreover have "same_core (vertices st0) (vertices ?st)" using sc02 by simp
  ultimately show ?thesis using p M2 E unfolding mesh_ok_def by blast
qed

lemma prepare_Some:
  assumes "prepare ps = Some st"
  shows "\<exists>st0 st1 st2. extractMeshData ps = Some st0 \<and> buildEdges st0 = Some st1 \<and>
           computeQuadrics st1 = Some st2 \<and> computeEdgeCosts st2 = Some st"
  using assms by (auto simp: prepare_def bind_eq_Some_conv)

lemma simplify_prepared:
  assumes e: "extractMeshData ps = Some st0" and p: "prepare ps = Some st"
  shows "simplify ps r =
           (case collapseLoop (targetFaceCount (length (faces st0)) r) (length (faces st0)) st 0
                   (startMessages (length (faces st0)) (targetFaceCount (length (faces st0)) r)
                      (countActiveFaces st)) of
              (m4, None) \<Rightarrow> (m4, None)
            | (m4, Some (st3, collapsed)) \<Rightarrow> (m4 @ [Progress BuildingOutput], buildGeometry st3))"
proof -
  from prepare_Some [OF p] e obtain st1 st2 where
    "buildEdges st0 = Some st1" "computeQuadrics st1 = Some st2" "computeEdgeCosts st2 = Some st"
    by auto
  with e show ?thesis by (simp add: simplify_def Let_def startMessages_def)
qed

lemma count_all_live:
  assumes "\<forall>f \<in> set fs. \<not> f_deleted f"
  shows "length (filter (\<lambda>f. \<not> f_deleted f) fs) = length fs"
  using assms by (induction fs) simp_all

lemma simplify_total:
  assumes v: "length ps mod 9 = 0"
  shows "\<exists>st0 st cm st' n.
           extractMeshData ps = Some st0 \<and> prepare ps = Some st \<and>
           faces st = faces st0 \<and> countActiveFaces st = length (faces st0) \<and>
           mesh_inv (vertices st0) (faces st0) \<and> same_core (vertices st0) (vertices st) \<and>
           mesh_ok st \<and> mesh_ok st' \<and> flags_mono st st' \<and> noStatus cm \<and>
           n \<le> length (faces st0) \<and>
           buildGeometry st' = Some (faceStream (vertices st') (faces st')) \<and>
           ((collapseLoop (targetFaceCount (length (faces st0)) r) (length (faces st0)) st 0
               (startMessages (length (faces st0)) (targetFaceCount (length (faces st0)) r)
                  (length (faces st0))) =
               (startMessages (length (faces st0)) (targetFaceCount (length (faces st0)) r)
                  (length (faces st0)) @ cm, Some (st', n)) \<and>
             simplify ps r =
               (startMessages (length (faces st0)) (targetFaceCount (length (faces st0)) r)
                  (length (faces st0)) @ cm @ [Progress BuildingOutput],
                Some (faceStream (vertices st') (faces st'))) \<and>
             (enat (countActiveFaces st') \<le> targetFaceCount (length (faces st0)) r \<or>
              length (faces st0) \<le> n)) \<or>
            (collapseLoop (targetFaceCount (length (faces st0)) r) (length (faces st0)) st 0
               (startMessages (length (faces st0)) (targetFaceCount (length (faces st0)) r)
                  (length (faces st0))) =
               (startMessages (length (faces st0)) (targetFaceCount (length (faces st0)) r)
                  (length (faces st0)) @ cm @
                  [Progress (NoMoreEdges (countActiveFaces st')
                     (targetFaceCount (length (faces st0)) r))], Some (st', n)) \<and>
             simplify ps r =
               (startMessages (length (faces st0)) (targetFaceCount (length (faces st0)) r)
                  (length (faces st0)) @ cm @
                  [Progress (NoMoreEdges (countActiveFaces st')
                     (targetFaceCount (length (faces st0)) r)), Progress BuildingOutput],
                Some (faceStream (vertices st') (faces st'))) \<and>
             targetFaceCount (length (faces st0)) r < enat (countActiveFaces st') \<and>
             n < length (faces st0)))"
proof -
  from extractMeshData_correct [OF v] obtain st0 where
    e: "extractMeshData ps = Some st0" "mesh_inv (vertices st0) (faces st0)"
      "others_inv (vertices st0) (faces st0)"
    by blast
  from prepare_total [OF e] obtain st where
    p: "prepare ps = Some st" "mesh_ok st" "faces st = faces st0"
      "same_core (vertices st0) (vertices st)"
    by blast
  let ?N = "length (faces st0)"
  let ?tgt = "targetFaceCount ?N r"
  have "\<forall>f \<in> set (faces st0). \<not> f_deleted f" using e(3) by (simp add: others_inv_def)
  then have cnt: "countActiveFaces st = ?N"
    using p(3) by (simp add: countActiveFaces_def count_all_live)
  let ?m = "startMessages ?N ?tgt ?N"
  from collapseLoop_total [OF p(2), where it = 0 and tgt = "?tgt" and maxIt = "?N" and msgs = "?m"]
  obtain cm st' n where
    l: "mesh_ok st'" "flags_mono st st'" "noStatus cm"
      "(collapseLoop ?tgt ?N st 0 ?m = (?m @ cm, Some (st', n)) \<and>
             (enat (countActiveFaces st') \<le> ?tgt \<or> ?N \<le> n)) \<or>
            (collapseLoop ?tgt ?N st 0 ?m =
               (?m @ cm @ [Progress (NoMoreEdges (countActiveFaces st') ?tgt)], Some (st', n)) \<and>
             ?tgt < enat (countActiveFaces st') \<and> n < ?N)"
      "0 \<le> ?N \<longrightarrow> n \<le> ?N"
    by blast
  have nN: "n \<le> ?N" using l(5) by simp
  have bg: "buildGeometry st' = Some (faceStream (vertices st') (faces st'))"
    using l(1) by (intro buildGeometry_stream) (simp add: mesh_ok_def)
  have sp: "simplify ps r =
           (case collapseLoop ?tgt ?N st 0 ?m of
              (m4, None) \<Rightarrow> (m4, None)
            | (m4, Some (st3, collapsed)) \<Rightarrow> (m4 @ [Progress BuildingOutput], buildGeometry st3))"
    using simplify_prepared [OF e(1) p(1), of r] cnt by simp
  from l(4) have "(collapseLoop ?tgt ?N st 0 ?m = (?m @ cm, Some (st', n)) \<and>
             simplify ps r = (?m @ cm @ [Progress BuildingOutput],
                Some (faceStream (vertices st') (faces st'))) \<and>
             (enat (countActiveFaces st') \<le> ?tgt \<or> ?N \<le> n)) \<or>
            (collapseLoop ?tgt ?N st 0 ?m =
               (?m @ cm @ [Progress (NoMoreEdges (countActiveFaces st') ?tgt)], Some (st', n)) \<and>
             simplify ps r =
               (?m @ cm @ [Progress (NoMoreEdges (countActiveFaces st') ?tgt), Progress BuildingOutput],
                Some (faceStream (vertices st') (faces st'))) \<and>
             ?tgt < enat (countActiveFaces st') \<and> n < ?N)"
    using sp bg by auto
  with e(1,2) p cnt l(1,2,3) nN bg show ?thesis by blast
qed

lemma length_triangles:
  "length ps mod 9 = 0 \<Longrightarrow> length ps = 9 * length (triangles ps)"
  by (induction ps rule: triangles.induct) simp_all

lemma getMinimumCostEdge_selectable:
  assumes "mesh_ok st" "getMinimumCostEdge st = Some (Some ei)"
  shows "selectable st ei"
  using getMinimumCostEdge_total [OF mesh_ok_endpoints [OF assms(1)]] assms(2) by auto

lemma simplify_no_collapse:
  assumes v: "length ps mod 9 = 0"
  shows "\<exists>st0. extractMeshData ps = Some st0 \<and>
           length (faces st0) = length (filter distinct3 (map keys3 (triangles ps))) \<and>
           length (faceStream (vertices st0) (faces st0)) = 9 * length (faces st0) \<and>
           (enat (length (faces st0)) \<le> targetFaceCount (length (faces st0)) r \<longrightarrow>
            simplify ps r =
              (startMessages (length (faces st0)) (targetFaceCount (length (faces st0)) r)
                 (length (faces st0)) @ [Progress BuildingOutput],
               Some (faceStream (vertices st0) (faces st0))))"
proof -
  from extractMeshData_correct [OF v] obtain st0 where
    e: "extractMeshData ps = Some st0" "mesh_inv (vertices st0) (faces st0)"
      "others_inv (vertices st0) (faces st0)"
      "map (face_keys (vertices st0)) (faces st0) = filter distinct3 (map keys3 (triangles ps))"
    by blast
  from prepare_total [OF e(1,2,3)] obtain st where
    p: "prepare ps = Some st" "mesh_ok st" "faces st = faces st0"
      "same_core (vertices st0) (vertices st)"
    by blast
  let ?N = "length (faces st0)"
  let ?tgt = "targetFaceCount ?N r"
  have al: "\<forall>f \<in> set (faces st0). \<not> f_deleted f" using e(3) by (simp add: others_inv_def)
  then have cnt: "countActiveFaces st = ?N"
    using p(3) by (simp add: countActiveFaces_def count_all_live)
  have len: "?N = length (filter distinct3 (map keys3 (triangles ps)))"
    using arg_cong [OF e(4), of length] by simp
  have ls: "length (faceStream (vertices st0) (faces st0)) = 9 * ?N"
    using al by (simp add: length_faceStream count_all_live)
  have bg: "buildGeometry st = Some (faceStream (vertices st0) (faces st0))"
    using buildGeometry_stream [of st] p(2,3,4) faceStream_same_core [OF p(4) e(2)]
    by (simp add: mesh_ok_def)
  have "enat ?N \<le> ?tgt \<longrightarrow> simplify ps r =
      (startMessages ?N ?tgt ?N @ [Progress BuildingOutput],
       Some (faceStream (vertices st0) (faces st0)))"
  proof
    assume le: "enat ?N \<le> ?tgt"
    from le have nl: "\<not> ?tgt < enat ?N" by (simp add: not_less)
    have "collapseLoop ?tgt ?N st 0 (startMessages ?N ?tgt ?N) =
        (startMessages ?N ?tgt ?N, Some (st, 0))"
      using nl cnt by (subst collapseLoop.simps) simp
    then show "simplify ps r = (startMessages ?N ?tgt ?N @ [Progress BuildingOutput],
       Some (faceStream (vertices st0) (faces st0)))"
      using simplify_prepared [OF e(1) p(1), of r] cnt bg by simp
  qed
  with e(1) len ls show ?thesis by blast
qed

section \<open>Evaluation of the model on concrete inputs\<close>

lemmas model_defs =
  extractMeshData_def getVertexIndex_def toFixed6_def newVertex_def computeFaceNormal_def
  nth_opt_def upd_at_def pushFace_def subVectors_def crossVectors_def Let_def
  normalize_v_def v_multiplyScalar_def
  buildEdges_def edgesOfFace_def addPair_def newEdge_def pushEdge_def pushEdgeFace_def
  computeQuadrics_def quadricOfFace_def faceQuadric_def addQuadric_def newQuadric_def
  fromPlane_def q_multiplyScalar_def q_add_def dot_def
  computeEdgeCosts_def edgeCost_def edgeTarget_def quadricCost_def evaluate_def addVectors_def
  countActiveFaces_def targetFaceCount_def round_defs round64_literal numeral_eq_enat
  buildGeometry_def mapVertex_def emitFace_def collapseLoop.simps

lemma vlength_z: "vlength (Vector3 0 0 k) = \<bar>k\<bar>"
  by (simp add: vlength_def)

section \<open>Scenario B\<close>

text \<open>
  C6, as stated: for the flat quad of two triangles and \<open>targetReduction = 0.99\<close>,
  \<^verbatim>\<open>simplify\<close> ends with exactly 4 output faces. It does not: the returned stream is the
  input itself, 18 numbers, that is 2 faces.
\<close>

theorem scenarioB_counterexample:
  "snd (simplify scenarioB (99 / 100)) = Some scenarioB \<and> real (length scenarioB) / 9 \<noteq> 4"
  by (simp add: scenarioB_def simplify_def model_defs vlength_z upt_rec)

text \<open>
  C6, amended: for the flat quad of two triangles and \<open>targetReduction = 0.99\<close> the
  target face count is 4 (the floor), 2 faces are extracted, no collapse is performed
  (no collapse message is posted), and the completion message carries the 2 input
  faces unchanged: 2 faces, neither 4 nor 0.
\<close>

theorem scenarioB_two_faces:
  "onmessage scenarioB (99 / 100) =
     [Progress (TargetInfo 2 4), Progress BuildingEdges, Progress ComputingQuadrics,
      Progress CollapsingEdges, Progress (InitialInfo 2 4), Progress BuildingOutput,
      Complete scenarioB 2 2]"
  by (simp add: onmessage_def scenarioB_def simplify_def model_defs vlength_z upt_rec
      numeral_2_eq_2)

text \<open>
  The literal \<^verbatim>\<open>0.99\<close> denotes the binary64 number \<open>4458563631096791 / 2\<^sup>5\<^sup>2\<close>; the run on
  it is the same.
\<close>

lemma scenarioB_binary64:
  "round64 0.99 = 4458563631096791 / 4503599627370496 \<and>
   onmessage scenarioB (4458563631096791 / 4503599627370496) =
     [Progress (TargetInfo 2 4), Progress BuildingEdges, Progress ComputingQuadrics,
      Progress CollapsingEdges, Progress (InitialInfo 2 4), Progress BuildingOutput,
      Complete scenarioB 2 2]"
  by (simp add: onmessage_def scenarioB_def simplify_def model_defs vlength_z upt_rec
      numeral_2_eq_2)

lemmas eval_defs =
  model_defs markDeleted_def replaceVertex_def transferFace_def setAdd_def
  affectedOfFace_def faceLive_def recostEdge_def recostVertex_def collapseEdge_def
  minStep_def getMinimumCostEdge_def collapseMessages_def simplify_def

lemma exhaust7_run:
  "simplify exhaust7 (1 / 2) =
     ([Progress (TargetInfo 7 4), Progress BuildingEdges, Progress ComputingQuadrics,
       Progress CollapsingEdges, Progress (InitialInfo 7 4),
       Progress (CollapseInfo 1 1 6), Progress (CollapseInfo 2 0 6),
       Progress (CollapseInfo 3 1 5), Progress (CollapseInfo 4 0 5),
       Progress (NoMoreEdges 5 4), Progress BuildingOutput],
      Some [5, - 1, 0, 15 / 4, 6, 0, 4, 2, 0, 15 / 4, 6, 0, 5, - 1, 0, 4, 2, 0,
            5, - 1, 0, 15 / 4, 6, 0, 8, 8, 0, 15 / 4, 6, 0, 5, - 1, 0, 0, 8, 0,
            5, - 1, 0, 15 / 4, 6, 0, 5, 4, 0])"
  by (simp add: exhaust7_def eval_defs vlength_z upt_rec)

lemma strip5_run:
  "simplify strip5 (1 / 4) =
     ([Progress (TargetInfo 5 4), Progress BuildingEdges, Progress ComputingQuadrics,
       Progress CollapsingEdges, Progress (InitialInfo 5 4),
       Progress (CollapseInfo 1 2 3), Progress BuildingOutput],
      Some [1 / 2, 1 / 2, 0, 2, 0, 0, 1, 1, 0, 2, 0, 0, 2, 1, 0, 1, 1, 0,
            2, 0, 0, 3, 0, 0, 2, 1, 0])"
  by (simp add: strip5_def eval_defs vlength_z upt_rec)

lemma scenarioC_run:
  "onmessage scenarioC (1 / 2) =
     [Progress (TargetInfo 2 4), Progress BuildingEdges, Progress ComputingQuadrics,
      Progress CollapsingEdges, Progress (InitialInfo 2 4), Progress BuildingOutput,
      Complete scenarioB 3 2]"
  by (simp add: onmessage_def scenarioC_def scenarioB_def eval_defs vlength_z upt_rec)

section \<open>Reduction 0 (C8)\<close>

text \<open>
  C8, as stated: with \<open>targetReduction = 0\<close> the target face count equals the extracted
  face count, no collapse is performed and the output holds exactly the faces that
  survived extraction. The first part fails below four faces: for the square of
  scenario B two faces are extracted and the target is 4 (the first progress message
  reports both numbers).
\<close>

theorem reduction_zero_counterexample:
  "simplify scenarioB 0 =
     ([Progress (TargetInfo 2 4), Progress BuildingEdges, Progress ComputingQuadrics,
       Progress CollapsingEdges, Progress (InitialInfo 2 4), Progress BuildingOutput],
      Some scenarioB) \<and>
   targetFaceCount 2 0 \<noteq> 2"
  by (simp add: scenarioB_def simplify_def model_defs vlength_z upt_rec)

text \<open>
  C8, amended: for every valid input (of fewer than \<open>2\<^sup>5\<^sup>3\<close> numbers, as every array is, so
  that the face count is a binary64 number), with \<open>targetReduction = 0\<close> the target face
  count is \<open>max 4 n\<close> for the \<open>n\<close> extracted faces (so at least \<open>n\<close>, and equal to \<open>n\<close> from
  four faces on), the loop performs no collapse (only the fixed progress messages are
  posted) and the output is the stream of exactly the \<open>n\<close> faces that survived
  extraction, each with the positions of its three extracted vertices.
\<close>

theorem reduction_zero_identity:
  assumes "length ps mod 9 = 0" and "length ps < 2 ^ 53"
  shows "\<exists>st0. extractMeshData ps = Some st0 \<and>
           targetFaceCount (length (faces st0)) 0 = max 4 (enat (length (faces st0))) \<and>
           simplify ps 0 =
             (startMessages (length (faces st0)) (max 4 (enat (length (faces st0))))
                (length (faces st0)) @ [Progress BuildingOutput],
              Some (faceStream (vertices st0) (faces st0))) \<and>
           length (faceStream (vertices st0) (faces st0)) = 9 * length (faces st0)"
proof -
  from simplify_no_collapse [OF assms(1), of 0] obtain st0 where
    r: "extractMeshData ps = Some st0"
      "length (faces st0) = length (filter distinct3 (map keys3 (triangles ps)))"
      "length (faceStream (vertices st0) (faces st0)) = 9 * length (faces st0)"
      "enat (length (faces st0)) \<le> targetFaceCount (length (faces st0)) 0 \<longrightarrow>
            simplify ps 0 =
              (startMessages (length (faces st0)) (targetFaceCount (length (faces st0)) 0)
                 (length (faces st0)) @ [Progress BuildingOutput],
               Some (faceStream (vertices st0) (faces st0)))"
    by blast
  have "length (faces st0) \<le> length (triangles ps)"
    unfolding r(2) by (rule order_trans [OF length_filter_le]) simp
  also have "\<dots> \<le> length ps" using length_triangles [OF assms(1)] by simp
  finally have n: "length (faces st0) < 2 ^ 53" using assms(2) by simp
  have t: "targetFaceCount (length (faces st0)) 0 = max 4 (enat (length (faces st0)))"
    by (rule targetFaceCount_zero [OF n])
  have "enat (length (faces st0)) \<le> targetFaceCount (length (faces st0)) 0"
    unfolding t by simp
  with r t show ?thesis by simp
qed

theorem reduction_zero_identity_witness:
  "length scenarioC mod 9 = 0 \<and> length scenarioC < 2 ^ 53 \<and>
   (\<exists>st0. extractMeshData scenarioC = Some st0 \<and>
           targetFaceCount (length (faces st0)) 0 = max 4 (enat (length (faces st0))) \<and>
           simplify scenarioC 0 =
             (startMessages (length (faces st0)) (max 4 (enat (length (faces st0))))
                (length (faces st0)) @ [Progress BuildingOutput],
              Some (faceStream (vertices st0) (faces st0))) \<and>
           length (faceStream (vertices st0) (faces st0)) = 9 * length (faces st0))"
proof -
  have h: "length scenarioC mod 9 = 0" "length scenarioC < 2 ^ 53" by (simp_all add: scenarioC_def)
  show ?thesis using h reduction_zero_identity [OF h] by simp
qed

section \<open>Degenerate input triangles and the reported counts (C7)\<close>

text \<open>
  C7, as stated: a triangle with two coincident resolved vertices is excluded from the
  face set, and all counts reported to the caller, the \<^verbatim>\<open>originalFaces\<close> field of the
  completion message included, are the reduced count and not \<^verbatim>\<open>positions.length / 9\<close>.
  For scenario C (three input triangles, one of them degenerate) the progress messages
  report 2 faces, and the completion message reports \<^verbatim>\<open>originalFaces = 3\<close>.
\<close>

theorem scenarioC_counterexample:
  "onmessage scenarioC (1 / 2) =
     [Progress (TargetInfo 2 4), Progress BuildingEdges, Progress ComputingQuadrics,
      Progress CollapsingEdges, Progress (InitialInfo 2 4), Progress BuildingOutput,
      Complete scenarioB 3 2] \<and>
   real (length scenarioC) / 9 = 3"
  using scenarioC_run by (simp add: scenarioC_def)

text \<open>
  C7, amended: for every valid input the extracted faces are exactly the input
  triangles whose three vertex keys are pairwise distinct (a triangle with two
  coincident resolved vertices is excluded); the progress messages report that reduced
  count as the original face count; the call ends with a completion message, never an
  error, whose \<^verbatim>\<open>simplifiedFaces\<close> is the number of output faces and whose
  \<^verbatim>\<open>originalFaces\<close> is the raw number of input triangles \<^verbatim>\<open>positions.length / 9\<close>.
\<close>

theorem degenerate_excluded_counts:
  assumes "length ps mod 9 = 0"
  shows "\<exists>st0 ms out.
           extractMeshData ps = Some st0 \<and>
           map (face_keys (vertices st0)) (faces st0) =
             filter distinct3 (map keys3 (triangles ps)) \<and>
           onmessage ps r =
             startMessages (length (faces st0)) (targetFaceCount (length (faces st0)) r)
               (length (faces st0)) @ ms @
             [Complete out (real (length (triangles ps))) (real (length out) / 9)]"
proof -
  from extractMeshData_correct [OF assms] obtain sta where
    a: "extractMeshData ps = Some sta"
      "map (face_keys (vertices sta)) (faces sta) = filter distinct3 (map keys3 (triangles ps))"
    by blast
  have lt: "real (length ps) / 9 = real (length (triangles ps))"
    using length_triangles [OF assms] by simp
  from simplify_total [OF assms, of r] obtain st0 st cm st' n where
    t: "extractMeshData ps = Some st0"
      "(simplify ps r =
               (startMessages (length (faces st0)) (targetFaceCount (length (faces st0)) r)
                  (length (faces st0)) @ cm @ [Progress BuildingOutput],
                Some (faceStream (vertices st') (faces st')))) \<or>
       (simplify ps r =
               (startMessages (length (faces st0)) (targetFaceCount (length (faces st0)) r)
                  (length (faces st0)) @ cm @
                  [Progress (NoMoreEdges (countActiveFaces st')
                     (targetFaceCount (length (faces st0)) r)), Progress BuildingOutput],
                Some (faceStream (vertices st') (faces st'))))"
    by blast
  from a(1) t(1) have eq: "sta = st0" by simp
  let ?start = "startMessages (length (faces st0)) (targetFaceCount (length (faces st0)) r)
                  (length (faces st0))"
  let ?out = "faceStream (vertices st') (faces st')"
  from t(2) obtain ms where "simplify ps r = (?start @ ms, Some ?out)"
    by (metis append_assoc)
  then have "onmessage ps r =
      ?start @ ms @ [Complete ?out (real (length (triangles ps))) (real (length ?out) / 9)]"
    using lt by (simp add: onmessage_def)
  with a eq show ?thesis by blast
qed

theorem degenerate_excluded_counts_witness:
  "length scenarioC mod 9 = 0 \<and>
   (\<exists>st0 ms out.
           extractMeshData scenarioC = Some st0 \<and>
           map (face_keys (vertices st0)) (faces st0) =
             filter distinct3 (map keys3 (triangles scenarioC)) \<and>
           onmessage scenarioC (1 / 2) =
             startMessages (length (faces st0))
               (targetFaceCount (length (faces st0)) (1 / 2)) (length (faces st0)) @ ms @
             [Complete out (real (length (triangles scenarioC))) (real (length out) / 9)])"
proof -
  have h: "length scenarioC mod 9 = 0" by (simp add: scenarioC_def)
  show ?thesis using h degenerate_excluded_counts [OF h, of "1 / 2"] by simp
qed


section \<open>The face count that simplify returns (C1)\<close>


text \<open>
  The floor does not bound the result from below either: for the strip of five
  triangles and \<open>r = 0.25\<close> the target is 4, the one collapse removes the two faces at
  the collapsed edge, and 3 faces are returned.
\<close>

lemma strip5_below_floor:
  "\<exists>msgs out. simplify strip5 (1 / 4) = (msgs, Some out) \<and> length out = 9 * 3"
  using strip5_run by simp

text \<open>
  The target is the number that the code computes in binary64 arithmetic, not the
  floor of the exact product: for 10 faces and the binary64 number nearest to 0.2 the
  difference \<open>1 - r\<close> rounds to the binary64 number just above 0.8 and the product to 8,
  while the exact product is below 8.
\<close>

lemma targetFaceCount_rounds:
  "round64 0.2 = 3602879701896397 / 18014398509481984 \<and>
   targetFaceCount 10 (3602879701896397 / 18014398509481984) = 8 \<and>
   \<lfloor>10 * (1 - 3602879701896397 / 18014398509481984 :: real)\<rfloor> = 7"
  by (simp add: targetFaceCount_def round_defs numeral_eq_enat)



section \<open>Tombstones and the live face count (C3)\<close>

text \<open>
  C3, as stated: after every \<^verbatim>\<open>collapseEdge\<close> call the live face count is no greater than
  before, each collapse removes at least one face, and deleted flags are never cleared.
  The second part fails: in the run on the seven triangles of \<open>exhaust7\<close> the progress
  message of the second collapse reports 0 deleted faces, 6 remaining (the collapsed
  edge is the last live edge of a triangle that the first collapse deleted).
\<close>

theorem collapse_removes_no_face_counterexample:
  "Progress (CollapseInfo 2 0 6) \<in> set (fst (simplify exhaust7 (1 / 2)))"
  by (simp add: exhaust7_run)

text \<open>
  C3, amended: in a well-formed engine state (as \<^verbatim>\<open>simplify\<close> prepares it and every
  collapse leaves it), collapsing the edge that the minimum-cost scan selects returns
  normally; no deleted flag of a vertex, face or edge is cleared and no record is
  removed; the faces it deletes are exactly the live faces listed on both endpoints,
  which may be none, so the live face count does not increase; and over any run of the
  collapse loop from that state no flag is cleared and the live face count does not
  increase.
\<close>

theorem collapse_tombstones:
  assumes "mesh_ok st" and "getMinimumCostEdge st = Some (Some ei)"
  shows "\<exists>st'. collapseEdge st ei = Some st' \<and> mesh_ok st' \<and> flags_mono st st' \<and>
           countActiveFaces st' \<le> countActiveFaces st \<and>
           (\<forall>i < length (faces st).
              f_deleted (faces st' ! i) =
                (f_deleted (faces st ! i) \<or>
                 (i \<in> set (v_faces (vertices st ! e_v0 (edges st ! ei))) \<and>
                  i \<in> set (v_faces (vertices st ! e_v1 (edges st ! ei)))))) \<and>
           (\<forall>tgt maxIt it msgs. \<exists>ms st'' n.
              collapseLoop tgt maxIt st it msgs = (ms, Some (st'', n)) \<and>
              flags_mono st st'' \<and> countActiveFaces st'' \<le> countActiveFaces st)"
proof -
  have sel: "selectable st ei" by (rule getMinimumCostEdge_selectable [OF assms])
  from collapse_selected [OF assms(1) sel] obtain st' where
    c: "collapseEdge st ei = Some st'" "mesh_ok st'" "flags_mono st st'"
      "\<forall>i < length (faces st).
              f_deleted (faces st' ! i) =
                (f_deleted (faces st ! i) \<or>
                 (i \<in> set (v_faces (vertices st ! e_v0 (edges st ! ei))) \<and>
                  i \<in> set (v_faces (vertices st ! e_v1 (edges st ! ei)))))"
    by blast
  have l: "\<forall>tgt maxIt it msgs. \<exists>ms st'' n.
              collapseLoop tgt maxIt st it msgs = (ms, Some (st'', n)) \<and>
              flags_mono st st'' \<and> countActiveFaces st'' \<le> countActiveFaces st"
  proof (intro allI)
    fix tgt maxIt it msgs
    from collapseLoop_total [OF assms(1), where it = it and tgt = tgt and maxIt = maxIt
        and msgs = msgs]
    obtain cm st'' n where
      r: "flags_mono st st''"
        "collapseLoop tgt maxIt st it msgs = (msgs @ cm, Some (st'', n)) \<or>
         collapseLoop tgt maxIt st it msgs =
           (msgs @ cm @ [Progress (NoMoreEdges (countActiveFaces st'') tgt)], Some (st'', n))"
      by blast
    from r(2) obtain ms where "collapseLoop tgt maxIt st it msgs = (ms, Some (st'', n))"
      by blast
    with r(1) flags_mono_count [OF r(1)]
    show "\<exists>ms st'' n. collapseLoop tgt maxIt st it msgs = (ms, Some (st'', n)) \<and>
              flags_mono st st'' \<and> countActiveFaces st'' \<le> countActiveFaces st"
      by blast
  qed
  from c l flags_mono_count [OF c(3)] show ?thesis by blast
qed

lemma scenarioB_prepared_ok: "mesh_ok (the (prepare scenarioB))"
proof -
  have "length scenarioB mod 9 = 0" by (simp add: scenarioB_def)
  from simplify_total [OF this, of 0] obtain st where
    "prepare scenarioB = Some st" "mesh_ok st" by blast
  then show ?thesis by simp
qed

lemma scenarioB_first_edge: "getMinimumCostEdge (the (prepare scenarioB)) = Some (Some 0)"
  by (simp add: prepare_def scenarioB_def eval_defs vlength_z upt_rec)

theorem collapse_tombstones_witness:
  "mesh_ok (the (prepare scenarioB)) \<and>
   getMinimumCostEdge (the (prepare scenarioB)) = Some (Some 0) \<and>
   (\<exists>st'. collapseEdge (the (prepare scenarioB)) 0 = Some st' \<and>
           countActiveFaces st' \<le> countActiveFaces (the (prepare scenarioB)))"
  using scenarioB_prepared_ok scenarioB_first_edge
    collapse_tombstones [OF scenarioB_prepared_ok scenarioB_first_edge]
  by blast



lemma startMessages_noStatus: "noStatus (startMessages n t a)"
  by (simp add: noStatus_def startMessages_def)




lemma before_costs_total:
  assumes v: "length ps mod 9 = 0"
  shows "\<exists>st. beforeCosts ps = Some st \<and> edgeCosts_ready st \<and>
           (\<forall>i < length (edges st). \<not> e_deleted (edges st ! i)) \<and>
           (\<forall>j < length (vertices st). \<not> v_deleted (vertices st ! j))"
proof -
  from extractMeshData_correct [OF v] obtain st0 where
    e: "extractMeshData ps = Some st0" "mesh_inv (vertices st0) (faces st0)"
      "others_inv (vertices st0) (faces st0)"
      "map (face_keys (vertices st0)) (faces st0) = filter distinct3 (map keys3 (triangles ps))"
    by blast
  from buildEdges_total [OF e(2) others_inv_nth(3) [OF e(3)]] obtain st1 where
    b: "buildEdges st0 = Some st1" "faces st1 = faces st0"
      "same_core (vertices st0) (vertices st1)"
      "\<forall>i < length (edges st1).
              edge_ok (length (vertices st0)) (length (faces st0)) (edges st1 ! i) \<and>
              \<not> e_deleted (edges st1 ! i)"
    by blast
  have M1: "mesh_inv (vertices st1) (faces st1)"
    using mesh_inv_same_core [OF b(3) e(2)] b(2) by simp
  from computeQuadrics_total [OF M1] obtain st2 where
    c: "computeQuadrics st1 = Some st2" "faces st2 = faces st1" "edges st2 = edges st1"
      "cq_inv (vertices st1) (vertices st2)"
    by blast
  have len1: "length (vertices st1) = length (vertices st0)" using b(3) by (simp add: same_core_def)
  from c(4) have len2: "length (vertices st2) = length (vertices st1)"
    and C: "\<And>j. j < length (vertices st1) \<Longrightarrow>
        v_deleted (vertices st2 ! j) = v_deleted (vertices st1 ! j) \<and>
        quadric (vertices st2 ! j) \<noteq> None"
    by (simp_all add: cq_inv_def)
  have p: "beforeCosts ps = Some st2" using e(1) b(1) c(1) by (simp add: beforeCosts_def)
  have nd: "\<forall>j < length (vertices st2). \<not> v_deleted (vertices st2 ! j)"
  proof (intro allI impI)
    fix j assume "j < length (vertices st2)"
    then have j: "j < length (vertices st0)" "j < length (vertices st1)" using len1 len2 by simp_all
    from b(3) j(1) have "v_deleted (vertices st1 ! j) = v_deleted (vertices st0 ! j)"
      by (simp add: same_core_def)
    with C [OF j(2)] others_inv_nth(1) [OF e(3) j(1)] show "\<not> v_deleted (vertices st2 ! j)"
      by simp
  qed
  have rdy: "edgeCosts_ready st2"
    unfolding edgeCosts_ready_def
  proof (intro conjI allI impI ballI)
    fix i assume "i < length (edges st2)"
    then have i: "i < length (edges st1)" using c(3) by simp
    with b(4) have ok: "edge_ok (length (vertices st0)) (length (faces st0)) (edges st1 ! i)"
      by blast
    show "e_v0 (edges st2 ! i) < length (vertices st2)"
      "e_v1 (edges st2 ! i) < length (vertices st2)"
      using ok c(3) len1 len2 by (simp_all add: edge_ok_def)
    fix f assume "f \<in> set (e_faces (edges st2 ! i))"
    with ok c(3) have f: "f < length (faces st0)" by (simp add: edge_ok_def)
    then show "f < length (faces st2)" using b(2) c(2) by simp
    show "\<not> f_deleted (faces st2 ! f)"
      using others_inv_nth(2) [OF e(3) f] b(2) c(2) by simp
  next
    fix j assume "j < length (vertices st2)"
    then show "quadric (vertices st2 ! j) \<noteq> None" using C len2 by simp
  qed
  from p rdy b(4) c(3) nd show ?thesis by auto
qed

section \<open>Edge costs (C2)\<close>

lemma filter_all: "\<forall>x \<in> set xs. P x \<Longrightarrow> filter P xs = xs"
  by (induction xs) simp_all

lemma costed_specCost:
  assumes "\<forall>f \<in> set (e_faces e). \<not> f_deleted (faces st ! f)"
  shows "costed (vertices st) e = specCost st e"
proof -
  have "liveFaceCount st e = length (e_faces e)"
    using filter_all [of "e_faces e" "\<lambda>f. \<not> f_deleted (faces st ! f)"] assms
    by (simp add: liveFaceCount_def)
  then show ?thesis
    by (simp add: costed_def specCost_def Let_def edgeTarget_def midpointOf_def quadricCost_def
        addVectors_def v_multiplyScalar_def mult.commute)
qed

text \<open>
  C2: \<^verbatim>\<open>computeEdgeCosts\<close> runs once, after \<^verbatim>\<open>computeQuadrics\<close> and before any face is
  deleted, so the faces listed on an edge are its live incident faces. In such a state
  it returns normally, changes only the edges, and leaves every edge as specified: a
  live edge with live endpoints gets the arithmetic midpoint of the endpoint positions
  as target and the sum of the two endpoint quadrics evaluated there as cost, times 10
  exactly when it has fewer than 2 live incident faces; an edge with a deleted endpoint
  gets cost \<open>Infinity\<close>.
\<close>

theorem computeEdgeCosts_spec:
  assumes "edgeCosts_ready st" and "i < length (edges st)"
  shows "\<exists>st'. computeEdgeCosts st = Some st' \<and> vertices st' = vertices st \<and>
           faces st' = faces st \<and> length (edges st') = length (edges st) \<and>
           edges st' ! i = specCost st (edges st ! i)"
proof -
  from assms(1) have ep: "\<forall>i < length (edges st). e_v0 (edges st ! i) < length (vertices st) \<and>
             e_v1 (edges st ! i) < length (vertices st)"
    and qn: "\<forall>j < length (vertices st). quadric (vertices st ! j) \<noteq> None"
    and lv: "\<forall>f \<in> set (e_faces (edges st ! i)). \<not> f_deleted (faces st ! f)"
    using assms(2) by (simp_all add: edgeCosts_ready_def)
  have "computeEdgeCosts st = Some (st\<lparr>edges := map (costed (vertices st)) (edges st)\<rparr>)"
    by (rule computeEdgeCosts_costed [OF ep qn])
  moreover have "map (costed (vertices st)) (edges st) ! i = specCost st (edges st ! i)"
    using assms(2) costed_specCost [OF lv] by simp
  ultimately show ?thesis by simp
qed

lemma scenarioB_before_ready: "edgeCosts_ready (the (beforeCosts scenarioB))"
proof -
  have "length scenarioB mod 9 = 0" by (simp add: scenarioB_def)
  from before_costs_total [OF this] obtain st where
    "beforeCosts scenarioB = Some st" "edgeCosts_ready st" by blast
  then show ?thesis by simp
qed

lemma scenarioB_before_edges: "0 < length (edges (the (beforeCosts scenarioB)))"
  by (simp add: beforeCosts_def scenarioB_def model_defs vlength_z upt_rec)

theorem computeEdgeCosts_spec_witness:
  "edgeCosts_ready (the (beforeCosts scenarioB)) \<and>
   0 < length (edges (the (beforeCosts scenarioB))) \<and>
   (\<exists>st'. computeEdgeCosts (the (beforeCosts scenarioB)) = Some st' \<and>
           vertices st' = vertices (the (beforeCosts scenarioB)) \<and>
           faces st' = faces (the (beforeCosts scenarioB)) \<and>
           length (edges st') = length (edges (the (beforeCosts scenarioB))) \<and>
           edges st' ! 0 =
             specCost (the (beforeCosts scenarioB)) (edges (the (beforeCosts scenarioB)) ! 0))"
  using scenarioB_before_ready scenarioB_before_edges
    computeEdgeCosts_spec [OF scenarioB_before_ready scenarioB_before_edges]
  by blast

lemma q_add_commute: "q_add p q = q_add q p"
  by (simp add: q_add_def add.commute)

lemma midpointOf_commute: "midpointOf p q = midpointOf q p"
  by (simp add: midpointOf_def add.commute)

lemma edgeTarget_midpoint: "edgeTarget a b = midpointOf (position a) (position b)"
  by (simp add: edgeTarget_def midpointOf_def addVectors_def v_multiplyScalar_def)

text \<open>
  The local recomputation at the end of \<^verbatim>\<open>collapseEdge\<close> applies the same rule to a live
  edge of a live vertex whose other endpoint is live, counting the live faces of the edge.
\<close>

lemma recostEdge_spec:
  assumes e: "ei < length es" "\<not> e_deleted (es ! ei)"
    and v: "vIndex = e_v0 (es ! ei) \<or> vIndex = e_v1 (es ! ei)"
    and rg: "e_v0 (es ! ei) < length vs" "e_v1 (es ! ei) < length vs"
      "\<forall>f \<in> set (e_faces (es ! ei)). f < length fs"
    and al: "\<not> v_deleted (vs ! e_v0 (es ! ei))" "\<not> v_deleted (vs ! e_v1 (es ! ei))"
    and q: "quadric (vs ! e_v0 (es ! ei)) \<noteq> None" "quadric (vs ! e_v1 (es ! ei)) \<noteq> None"
  shows "recostEdge vs fs vIndex (vs ! vIndex) ei es =
           Some (es[ei := specCost \<lparr>vertices = vs, faces = fs, edges = es\<rparr> (es ! ei)])"
proof -
  let ?e = "es ! ei"
  from q obtain q0 q1 where qq: "quadric (vs ! e_v0 ?e) = Some q0" "quadric (vs ! e_v1 ?e) = Some q1"
    by auto
  have "\<And>x. x \<in> set (e_faces ?e) \<Longrightarrow> faceLive fs x = Some (\<not> f_deleted (fs ! x))"
    using rg(3) by (simp add: faceLive_def nth_opt_def)
  then have live: "mapM (faceLive fs) (e_faces ?e) = Some (map (\<lambda>x. \<not> f_deleted (fs ! x)) (e_faces ?e))"
    by (rule mapM_map)
  have cnt: "length (filter (\<lambda>b. b) (map (\<lambda>x. \<not> f_deleted (fs ! x)) (e_faces ?e))) =
      liveFaceCount \<lparr>vertices = vs, faces = fs, edges = es\<rparr> ?e"
    by (simp add: liveFaceCount_def comp_def)
  show ?thesis
  proof (cases "vIndex = e_v0 ?e")
    case True
    then show ?thesis
      using e rg al qq live cnt
      by (simp add: recostEdge_def nth_opt_def Let_def specCost_def quadricCost_def
          edgeTarget_midpoint mult.commute)
  next
    case False
    with v have "vIndex = e_v1 ?e" by simp
    with False show ?thesis
      using e rg al qq live cnt
      by (simp add: recostEdge_def nth_opt_def Let_def specCost_def quadricCost_def
          edgeTarget_midpoint mult.commute q_add_commute [of q1 q0]
          midpointOf_commute [of "position (vs ! e_v1 ?e)"])
  qed
qed














lemma vlength_nonneg: "0 \<le> vlength v"
  by (simp add: vlength_def)





section \<open>The quadric of a vertex (C5)\<close>




section \<open>Vertex identity (C4)\<close>

lemma toFixed6_eq_iff:
  assumes "\<bar>x\<bar> < 10 ^ 21" "\<bar>y\<bar> < 10 ^ 21"
  shows "toFixed6 x = toFixed6 y \<longleftrightarrow>
           (x < 0 \<longleftrightarrow> y < 0) \<and> \<lfloor>\<bar>x\<bar> * 10 ^ 6 + 1 / 2\<rfloor> = \<lfloor>\<bar>y\<bar> * 10 ^ 6 + 1 / 2\<rfloor>"
  using assms by (simp add: toFixed6_def)

text \<open>
  The key is not a tolerance ball: \<open>0\<close> and \<open>2\<^sup>-\<^sup>2\<^sup>1\<close> are \<open>4.8 \<sqdot> 10\<^sup>-\<^sup>7\<close> apart and print the
  same, while \<open>2\<^sup>-\<^sup>2\<^sup>1\<close> and \<open>2\<^sup>-\<^sup>2\<^sup>1 + 2\<^sup>-\<^sup>2\<^sup>4\<close> are \<open>6 \<sqdot> 10\<^sup>-\<^sup>8\<close> apart and print differently.
\<close>

lemma toFixed6_not_a_ball:
  "toFixed6 0 = toFixed6 (1 / 2097152) \<and>
   toFixed6 (1 / 2097152) \<noteq> toFixed6 (1 / 2097152 + 1 / 16777216)"
  by (simp add: toFixed6_def)

text \<open>
  C4, as stated: two input points that differ beyond the 6th decimal remain distinct
  vertices. The corners \<open>(0, 0, 0)\<close> and \<open>(2\<^sup>-\<^sup>2\<^sup>1, 0, 0)\<close> of one triangle differ only from
  the 7th decimal on; \<^verbatim>\<open>extractMeshData\<close> gives them one vertex, keeps two vertices in
  all, and drops the triangle.
\<close>

theorem near_points_counterexample:
  "extractMeshData nearPoints =
     Some \<lparr>vertices = [newVertex 0 0 0, newVertex 0 1 0], faces = [], edges = []\<rparr>"
  by (simp add: nearPoints_def extractMeshData_def getVertexIndex_def toFixed6_def)

text \<open>
  C4, amended: for a stream of whole triangles \<^verbatim>\<open>extractMeshData\<close> returns normally; the
  vertices it makes have pairwise different keys, the key being the triple of the
  coordinates rounded to 6 decimals, and their keys are exactly the keys of the input
  points, so two input points become one vertex if and only if they round to the same
  6 decimals in every coordinate; the faces are, in input order, the triangles whose
  three corners have pairwise different keys, every other triangle being dropped.
\<close>

theorem extractMeshData_keys:
  assumes "length ps mod 9 = 0"
  shows "\<exists>st. extractMeshData ps = Some st \<and>
           distinct (map (\<lambda>v. vkey (position v)) (vertices st)) \<and>
           key_set (vertices st) = tri_keys ps \<and>
           map (face_keys (vertices st)) (faces st) =
             filter distinct3 (map keys3 (triangles ps))"
  using extractMeshData_correct [OF assms] by blast

theorem extractMeshData_keys_witness:
  "length scenarioC mod 9 = 0 \<and>
   (\<exists>st. extractMeshData scenarioC = Some st \<and>
           distinct (map (\<lambda>v. vkey (position v)) (vertices st)) \<and>
           key_set (vertices st) = tri_keys scenarioC \<and>
           map (face_keys (vertices st)) (faces st) =
             filter distinct3 (map keys3 (triangles scenarioC))) \<and>
   length (filter distinct3 (map keys3 (triangles scenarioC))) = 2"
proof -
  have l: "length scenarioC mod 9 = 0" by (simp add: scenarioC_def)
  have n: "length (filter distinct3 (map keys3 (triangles scenarioC))) = 2"
    by (simp add: scenarioC_def keys3_def distinct3_def vkey_def toFixed6_def)
  from l n extractMeshData_keys [OF l] show ?thesis by blast
qed

end
